theory Spec2Isabelle
  imports Complex_Main "HOL-Library.Sublist" "HOL-Library.AList"
begin

section \<open>Backend channel: \<open>PTYHandler\<close> (terminal/pty\_handler.py)\<close>

text \<open>
  The handler's socket is the only part of the container runtime the engine touches.
  Its future is part of the state: \<open>incoming\<close> lists what the successive \<open>recv\<close> calls
  on the socket will deliver (an empty string where \<open>recv\<close> has nothing or fails: the
  handler turns both into \<open>""\<close>), \<open>outgoing\<close> records what was handed to \<open>send\<close>.
  Text and bytes are both character lists; \<open>encode\<close> and \<open>decode\<close> are the identity.
\<close>

record pty_handler =
  pty_container_id :: string
  connected :: bool
  incoming :: "string list"
  outgoing :: "string list"
  socket_closed :: bool

definition pty_read :: "pty_handler \<Rightarrow> string \<times> pty_handler" where
  "pty_read p =
     (if \<not> connected p then ([], p)
      else (case incoming p of
              [] \<Rightarrow> ([], p)
            | d # ds \<Rightarrow> (d, p\<lparr>incoming := ds\<rparr>)))"

definition pty_write :: "string \<Rightarrow> pty_handler \<Rightarrow> pty_handler" where
  "pty_write data p =
     (if \<not> connected p then p else p\<lparr>outgoing := outgoing p @ [data]\<rparr>)"

definition pty_close :: "pty_handler \<Rightarrow> pty_handler" where
  "pty_close p = p\<lparr>socket_closed := True, connected := False\<rparr>"

section \<open>Automation engine: \<open>PexpectHandler\<close> (terminal/pexpect\_handler.py)\<close>

text \<open>
  A compiled regular expression is represented by its \<open>search\<close> method: for a subject
  string it gives the span \<open>(start, end)\<close> of the match it finds, or \<open>None\<close>. A pattern
  argument is a string or such a compiled object.
\<close>

type_synonym compiled = "string \<Rightarrow> (nat \<times> nat) option"

datatype pattern = Str string | Pat compiled

datatype pattern_arg = Single pattern | Many "pattern list"

text \<open>
  The exceptions that leave the modelled functions: \<open>TimeoutError\<close> of \<open>expect\<close>
  (with the timeout of its message), the \<open>TypeError\<close> of adding something that is
  not a string to the buffer, the \<open>RuntimeError\<close> of a full registry (with the
  maximum of its message; the registry's capacity error), and whatever the container
  runtime raises while the channel is opened.
\<close>

datatype error = TimeoutError rat | TypeError | RuntimeError int | DockerError string

text \<open>
  \<open>re.compile(re.escape(p)).search(buf)\<close>: the leftmost occurrence of the literal \<open>p\<close>
  in \<open>buf\<close>; the match ends \<open>len(p)\<close> characters after its start.
\<close>

fun find_sub :: "string \<Rightarrow> string \<Rightarrow> nat option" where
  "find_sub p [] = (if p = [] then Some 0 else None)"
| "find_sub p (c # cs) =
     (if prefix p (c # cs) then Some 0 else map_option Suc (find_sub p cs))"

definition compile_escaped :: "string \<Rightarrow> compiled" where
  "compile_escaped p buf = map_option (\<lambda>i. (i, i + length p)) (find_sub p buf)"

definition pattern_list :: "pattern_arg \<Rightarrow> pattern list" where
  "pattern_list a = (case a of Single p \<Rightarrow> [p] | Many ps \<Rightarrow> ps)"

definition compile_pattern :: "pattern \<Rightarrow> compiled" where
  "compile_pattern p = (case p of Str s \<Rightarrow> compile_escaped s | Pat c \<Rightarrow> c)"

definition compiled_patterns :: "pattern_arg \<Rightarrow> compiled list" where
  "compiled_patterns a = map compile_pattern (pattern_list a)"

text \<open>
  The handler's own field is \<open>_buffer\<close> (\<open>_patterns\<close> is never written). Its
  \<open>pty_handler\<close> attribute is a reference to the channel object it was constructed
  with: the model passes that channel beside the handler and returns both updated.

  The handler calls \<open>self.pty_handler.read()\<close> as an ordinary method and uses the
  value as text. The \<open>read\<close> of the repository's \<open>PTYHandler\<close> is a coroutine
  function: called like that it reads nothing and gives a coroutine object
  (\<open>Coroutine_read\<close>, the channel every session's handler gets from
  \<open>create_session\<close>). A channel object whose \<open>read\<close> is an ordinary method with
  the same effect, like the handler of the test fixtures (tests/conftest.py), gives the
  text (\<open>Plain_read\<close>). \<open>write\<close> is an ordinary method of both.
\<close>

record pexpect_handler =
  buffer :: string

datatype read_value = Text string | Coroutine

datatype channel = Coroutine_read pty_handler | Plain_read pty_handler

fun handler_of :: "channel \<Rightarrow> pty_handler" where
  "handler_of (Coroutine_read p) = p"
| "handler_of (Plain_read p) = p"

fun call_read :: "channel \<Rightarrow> read_value \<times> channel" where
  "call_read (Coroutine_read p) = (Coroutine, Coroutine_read p)"
| "call_read (Plain_read p) = (case pty_read p of (d, p') \<Rightarrow> (Text d, Plain_read p'))"

fun call_write :: "string \<Rightarrow> channel \<Rightarrow> channel" where
  "call_write data (Coroutine_read p) = Coroutine_read (pty_write data p)"
| "call_write data (Plain_read p) = Plain_read (pty_write data p)"

definition send :: "string \<Rightarrow> channel \<Rightarrow> channel" where
  "send data ch = call_write data ch"

definition sendline :: "string \<Rightarrow> channel \<Rightarrow> channel" where
  "sendline line ch = send (line @ [CHR 0x0A]) ch"

text \<open>
  The \<open>for i, pattern in enumerate(compiled_patterns)\<close> loop on one buffer: the index
  of the first pattern that finds a match, with the buffer cut at the match's end.
\<close>

fun check_patterns :: "compiled list \<Rightarrow> nat \<Rightarrow> string \<Rightarrow> (nat \<times> string) option" where
  "check_patterns [] i buf = None"
| "check_patterns (p # ps) i buf =
     (case p buf of
        Some m \<Rightarrow> Some (i, drop (snd m) buf)
      | None \<Rightarrow> check_patterns ps (Suc i) buf)"

text \<open>
  The \<open>while time.time() - start_time < timeout\<close> loop. The clock is the list of the
  values the successive \<open>time.time()\<close> calls return (seconds, as rationals);
  \<open>time.sleep\<close> only moves that clock. \<open>None\<close> says that the given readings ended
  before the loop did. A coroutine object is true in \<open>if new_data\<close>, and
  \<open>self._buffer += new_data\<close> then raises \<open>TypeError\<close>.
\<close>

fun expect_loop ::
  "compiled list \<Rightarrow> rat \<Rightarrow> rat \<Rightarrow> rat list \<Rightarrow> pexpect_handler \<times> channel
     \<Rightarrow> ((error + nat) \<times> pexpect_handler \<times> channel) option" where
  "expect_loop cps start timeout [] (h, ch) = None"
| "expect_loop cps start timeout (now # clock) (h, ch) =
     (if now - start < timeout then
        (case call_read ch of
           (Coroutine, ch') \<Rightarrow> Some (Inl TypeError, h, ch')
         | (Text new_data, ch') \<Rightarrow>
             (let h' = (if new_data \<noteq> [] then h\<lparr>buffer := buffer h @ new_data\<rparr> else h) in
              (case check_patterns cps 0 (buffer h') of
                 Some (i, rest) \<Rightarrow> Some (Inr i, h'\<lparr>buffer := rest\<rparr>, ch')
               | None \<Rightarrow> expect_loop cps start timeout clock (h', ch'))))
      else Some (Inl (TimeoutError timeout), h, ch))"

definition expect ::
  "pattern_arg \<Rightarrow> rat \<Rightarrow> rat list \<Rightarrow> pexpect_handler \<times> channel
     \<Rightarrow> ((error + nat) \<times> pexpect_handler \<times> channel) option" where
  "expect a timeout clock hp =
     (case clock of
        [] \<Rightarrow> None
      | start_time # clock' \<Rightarrow> expect_loop (compiled_patterns a) start_time timeout clock' hp)"

definition send_command ::
  "string \<Rightarrow> bool \<Rightarrow> string \<Rightarrow> rat list \<Rightarrow> pexpect_handler \<times> channel
     \<Rightarrow> ((error + string) \<times> pexpect_handler \<times> channel) option" where
  "send_command command expect_prompt prompt clock hp =
     (case hp of
        (h, ch) \<Rightarrow>
          (let h1 = h\<lparr>buffer := []\<rparr>;
               ch1 = sendline command ch
           in if expect_prompt then
                (case expect (Single (Str prompt)) 30 clock (h1, ch1) of
                   None \<Rightarrow> None
                 | Some (Inl e, h2, ch2) \<Rightarrow> Some (Inl e, h2, ch2)
                 | Some (Inr i, h2, ch2) \<Rightarrow> Some (Inr (buffer h2), h2, ch2))
              else Some (Inr (buffer h1), h1, ch1)))"

definition pexpect_close :: "pexpect_handler \<Rightarrow> pexpect_handler" where
  "pexpect_close h = h\<lparr>buffer := []\<rparr>"

text \<open>
  What the first \<open>k\<close> calls of \<open>read\<close> deliver, and the channel they leave.
\<close>

fun read_seq :: "nat \<Rightarrow> pty_handler \<Rightarrow> string list \<times> pty_handler" where
  "read_seq 0 p = ([], p)"
| "read_seq (Suc k) p =
     (case pty_read p of
        (d, p') \<Rightarrow> (case read_seq k p' of (ds, p'') \<Rightarrow> (d # ds, p'')))"

section \<open>Sessions (core/session\_manager.py)\<close>

text \<open>
  A subscriber callback is represented by its identity. Timestamps of
  \<open>datetime.utcnow()\<close> are integers, in microseconds; \<open>timedelta(seconds=n)\<close> is
  \<open>n * 1000000\<close>.
\<close>

type_synonym callback = nat

record session =
  session_id :: string
  container_id :: string
  pty_handler :: pty_handler
  pexpect_handler :: "pexpect_handler option"
  created_at :: int
  last_activity :: int
  active :: bool
  output_callbacks :: "callback list"

definition new_session ::
  "string \<Rightarrow> string \<Rightarrow> pty_handler \<Rightarrow> pexpect_handler option \<Rightarrow> int \<Rightarrow> int \<Rightarrow> session" where
  "new_session sid cid pty pex t_created t_activity =
     \<lparr>session_id = sid, container_id = cid, pty_handler = pty, pexpect_handler = pex,
      created_at = t_created, last_activity = t_activity, active = True,
      output_callbacks = []\<rparr>"

definition add_output_callback :: "callback \<Rightarrow> session \<Rightarrow> session" where
  "add_output_callback cb s = s\<lparr>output_callbacks := output_callbacks s @ [cb]\<rparr>"

definition remove_output_callback :: "callback \<Rightarrow> session \<Rightarrow> session" where
  "remove_output_callback cb s =
     (if cb \<in> set (output_callbacks s)
      then s\<lparr>output_callbacks := remove1 cb (output_callbacks s)\<rparr>
      else s)"

definition send_input :: "string \<Rightarrow> int \<Rightarrow> session \<Rightarrow> session" where
  "send_input data now s =
     (let s1 = s\<lparr>last_activity := now\<rparr>
      in case pexpect_handler s1 of
           Some h \<Rightarrow>
             s1\<lparr>pty_handler := handler_of (send data (Coroutine_read (pty_handler s1)))\<rparr>
         | None \<Rightarrow> s1\<lparr>pty_handler := pty_write data (pty_handler s1)\<rparr>)"

definition close :: "session \<Rightarrow> session" where
  "close s =
     (let s1 = s\<lparr>active := False\<rparr>;
          s2 = (case pexpect_handler s1 of
                  Some h \<Rightarrow> s1\<lparr>pexpect_handler := Some (pexpect_close h)\<rparr>
                | None \<Rightarrow> s1)
      in s2\<lparr>pty_handler := pty_close (pty_handler s2)\<rparr>)"

section \<open>Session registry: \<open>SessionManager\<close>\<close>

text \<open>
  The \<open>sessions\<close> dictionary keeps insertion order, so it is an association list:
  \<open>AList.update\<close> writes an existing key in place and appends a new one,
  \<open>AList.delete\<close> removes a key, \<open>map_of\<close> is \<open>get\<close>, and \<open>len\<close> is the length of
  the list, whose keys are distinct.
\<close>

record session_manager =
  max_sessions :: int
  timeout_seconds :: int
  sessions :: "(string \<times> session) list"

text \<open>
  \<open>create_session\<close> is a coroutine with one suspension point, the
  \<open>await pty_handler.connect(command)\<close>. What runs before it (\<open>create_begin\<close>: the
  capacity check, the id, the construction of the \<open>PTYHandler\<close>) and what runs after it
  (\<open>create_finish\<close>) are each uninterrupted. What the surroundings decide is given to the
  model: the \<open>uuid4\<close> string, whether the runtime's container lookup of the constructor
  raises, the outcome of the connection (refused, or the socket with the output it will
  deliver), and the two clock readings of the \<open>Session\<close> constructor.
\<close>

datatype connect_outcome = Refused string | Established "string list"

record pending_create =
  p_session_id :: string
  p_container_id :: string
  p_use_pexpect :: bool

definition create_begin ::
  "session_manager \<Rightarrow> string \<Rightarrow> string \<Rightarrow> bool \<Rightarrow> string option \<Rightarrow> error + pending_create" where
  "create_begin m uuid cid use_pexpect lookup_error =
     (if int (length (sessions m)) \<ge> max_sessions m then Inl (RuntimeError (max_sessions m))
      else (case lookup_error of
              Some e \<Rightarrow> Inl (DockerError e)
            | None \<Rightarrow>
                Inr \<lparr>p_session_id = uuid, p_container_id = cid, p_use_pexpect = use_pexpect\<rparr>))"

definition create_finish ::
  "session_manager \<Rightarrow> pending_create \<Rightarrow> connect_outcome \<Rightarrow> int \<Rightarrow> int
     \<Rightarrow> (error + string) \<times> session_manager" where
  "create_finish m p outcome t_created t_activity =
     (case outcome of
        Refused e \<Rightarrow> (Inl (DockerError e), m)
      | Established output \<Rightarrow>
          (let pty = \<lparr>pty_container_id = p_container_id p, connected = True,
                      incoming = output, outgoing = [], socket_closed = False\<rparr>;
               pex = (if p_use_pexpect p then Some \<lparr>buffer = []\<rparr> else None);
               s = new_session (p_session_id p) (p_container_id p) pty pex t_created t_activity
           in (Inr (p_session_id p),
               m\<lparr>sessions := AList.update (p_session_id p) s (sessions m)\<rparr>)))"

record create_env =
  uuid4 :: string
  lookup_error :: "string option"
  connection :: connect_outcome
  t_created :: int
  t_activity :: int

definition create_session ::
  "session_manager \<Rightarrow> string \<Rightarrow> string option \<Rightarrow> bool \<Rightarrow> create_env
     \<Rightarrow> (error + string) \<times> session_manager" where
  "create_session m cid command use_pexpect env =
     (case create_begin m (uuid4 env) cid use_pexpect (lookup_error env) of
        Inl e \<Rightarrow> (Inl e, m)
      | Inr p \<Rightarrow> create_finish m p (connection env) (t_created env) (t_activity env))"

definition get_session :: "session_manager \<Rightarrow> string \<Rightarrow> session option" where
  "get_session m sid = map_of (sessions m) sid"

text \<open>
  \<open>close_session\<close> gives its result, the registry, and the session object it closed
  (which the registry no longer holds).
\<close>

definition close_session ::
  "session_manager \<Rightarrow> string \<Rightarrow> bool \<times> session_manager \<times> session option" where
  "close_session m sid =
     (case map_of (sessions m) sid of
        None \<Rightarrow> (False, m, None)
      | Some s \<Rightarrow> (True, m\<lparr>sessions := AList.delete sid (sessions m)\<rparr>, Some (close s)))"

record descriptor =
  d_session_id :: string
  d_container_id :: string
  d_created_at :: int
  d_last_activity :: int
  d_active :: bool

definition list_sessions :: "session_manager \<Rightarrow> descriptor list" where
  "list_sessions m =
     map (\<lambda>(sid, s). \<lparr>d_session_id = session_id s, d_container_id = container_id s,
                       d_created_at = created_at s, d_last_activity = last_activity s,
                       d_active = active s\<rparr>) (sessions m)"

section \<open>Idle reaper: one pass of \<open>_cleanup_loop\<close>\<close>

definition timedelta_seconds :: "int \<Rightarrow> int" where
  "timedelta_seconds n = n * 1000000"

definition timed_out_ids :: "int \<Rightarrow> session_manager \<Rightarrow> string list" where
  "timed_out_ids now m =
     map fst (filter (\<lambda>(sid, s). now - last_activity s > timedelta_seconds (timeout_seconds m))
                (sessions m))"

fun close_all :: "string list \<Rightarrow> session_manager \<times> session list \<Rightarrow> session_manager \<times> session list" where
  "close_all [] (m, cl) = (m, cl)"
| "close_all (sid # sids) (m, cl) =
     (case close_session m sid of
        (_, m', None) \<Rightarrow> close_all sids (m', cl)
      | (_, m', Some s) \<Rightarrow> close_all sids (m', cl @ [s]))"

definition cleanup_pass :: "int \<Rightarrow> session_manager \<Rightarrow> session_manager \<times> session list" where
  "cleanup_pass now m = close_all (timed_out_ids now m) (m, [])"

section \<open>Cooperative scheduling of the registry operations\<close>

text \<open>
  The event loop runs one task at a time and switches only at an \<open>await\<close>. A run of
  the registry is therefore a sequence of uninterrupted pieces: the first half of a
  \<open>create_session\<close> call (which then waits for its connection), the second half of a
  waiting call, a \<open>close_session\<close> call, a pass of the reaper. The waiting calls are
  kept by task number.
\<close>

datatype event =
    CreateCall nat string string bool "string option"
  | CreateResume nat connect_outcome int int
  | CloseCall string
  | CleanupPass int

record system =
  manager :: session_manager
  suspended :: "(nat \<times> pending_create) list"

fun step :: "system \<Rightarrow> event \<Rightarrow> system" where
  "step sys (CreateCall t uuid cid use_pexpect lookup) =
     (case create_begin (manager sys) uuid cid use_pexpect lookup of
        Inl e \<Rightarrow> sys
      | Inr p \<Rightarrow> sys\<lparr>suspended := AList.update t p (suspended sys)\<rparr>)"
| "step sys (CreateResume t outcome t1 t2) =
     (case map_of (suspended sys) t of
        None \<Rightarrow> sys
      | Some p \<Rightarrow>
          sys\<lparr>manager := snd (create_finish (manager sys) p outcome t1 t2),
              suspended := AList.delete t (suspended sys)\<rparr>)"
| "step sys (CloseCall sid) = sys\<lparr>manager := fst (snd (close_session (manager sys) sid))\<rparr>"
| "step sys (CleanupPass now) = sys\<lparr>manager := fst (cleanup_pass now (manager sys))\<rparr>"

definition run :: "system \<Rightarrow> event list \<Rightarrow> system" where
  "run sys evs = foldl step sys evs"

section \<open>Output fan-out: the relay loop \<open>_read_output\<close>\<close>

text \<open>
  What a callback does when it is invoked is its reaction: the subscriber operations it
  performs on the session it is subscribed to, and whether it then raises an
  \<open>Exception\<close>. A behaviour gives the reaction of every callback from the calls made so
  far, the callback and the chunk. The relay keeps the session, the calls it has made
  (callback and chunk, oldest first: a chunk is delivered to a subscriber by calling it)
  and the number of errors it has logged.
\<close>

datatype sub_op = AddCallback callback | RemoveCallback callback

record reaction =
  ops :: "sub_op list"
  raises :: bool

type_synonym calls = "(callback \<times> string) list"

type_synonym behaviour = "calls \<Rightarrow> callback \<Rightarrow> string \<Rightarrow> reaction"

record relay =
  relay_session :: session
  delivered :: calls
  logged_errors :: nat

definition apply_op :: "sub_op \<Rightarrow> session \<Rightarrow> session" where
  "apply_op op s =
     (case op of
        AddCallback c \<Rightarrow> add_output_callback c s
      | RemoveCallback c \<Rightarrow> remove_output_callback c s)"

text \<open>
  The body of the \<open>for\<close> loop: \<open>try: callback(data)\<close>, and \<open>except Exception\<close>
  only logs.
\<close>

definition invoke :: "behaviour \<Rightarrow> callback \<Rightarrow> string \<Rightarrow> relay \<Rightarrow> relay" where
  "invoke beh cb data r =
     (let re = beh (delivered r) cb data;
          r1 = r\<lparr>relay_session := fold apply_op (ops re) (relay_session r),
                 delivered := delivered r @ [(cb, data)]\<rparr>
      in if raises re then r1\<lparr>logged_errors := Suc (logged_errors r1)\<rparr> else r1)"

text \<open>
  \<open>for callback in session._output_callbacks\<close> walks the list object itself by
  position: each round compares the position with the present length and takes the
  present element. A pass that never ends is \<open>None\<close>.
\<close>

partial_function (option) deliver :: "behaviour \<Rightarrow> string \<Rightarrow> nat \<Rightarrow> relay \<Rightarrow> relay option" where
  "deliver beh data i r =
     (if i < length (output_callbacks (relay_session r))
      then deliver beh data (Suc i) (invoke beh (output_callbacks (relay_session r) ! i) data r)
      else Some r)"

text \<open>
  The first \<open>n\<close> rounds of \<open>while session.active\<close>, with no other task touching the
  session in between.
\<close>

fun read_output :: "nat \<Rightarrow> behaviour \<Rightarrow> relay \<Rightarrow> relay option" where
  "read_output 0 beh r = Some r"
| "read_output (Suc n) beh r =
     (if active (relay_session r) then
        (case pty_read (pty_handler (relay_session r)) of
           (data, pty') \<Rightarrow>
             (let r1 = r\<lparr>relay_session := (relay_session r)\<lparr>pty_handler := pty'\<rparr>\<rparr>
              in if data \<noteq> [] then
                   (case deliver beh data 0 r1 of
                      None \<Rightarrow> None
                    | Some r2 \<Rightarrow> read_output n beh r2)
                 else read_output n beh r1))
      else Some r)"

text \<open>Whether a callback's operations only add, or only remove, subscribers.\<close>

fun adds_only :: "sub_op list \<Rightarrow> bool" where
  "adds_only [] = True"
| "adds_only (AddCallback c # os) = adds_only os"
| "adds_only (RemoveCallback c # os) = False"

fun removes_only :: "sub_op list \<Rightarrow> bool" where
  "removes_only [] = True"
| "removes_only (RemoveCallback c # os) = removes_only os"
| "removes_only (AddCallback c # os) = False"

section \<open>Example values\<close>

definition demo_pty :: "string list \<Rightarrow> pty_handler" where
  "demo_pty output =
     \<lparr>pty_container_id = ''c0'', connected = True, incoming = output, outgoing = [],
      socket_closed = False\<rparr>"

definition demo_session :: "string \<Rightarrow> int \<Rightarrow> callback list \<Rightarrow> string list \<Rightarrow> session" where
  "demo_session sid t cbs output =
     (new_session sid ''c0'' (demo_pty output) None t t)\<lparr>output_callbacks := cbs\<rparr>"

definition demo_manager :: "int \<Rightarrow> (string \<times> session) list \<Rightarrow> session_manager" where
  "demo_manager n ss = \<lparr>max_sessions = n, timeout_seconds = 300, sessions = ss\<rparr>"

definition demo_env :: "string \<Rightarrow> connect_outcome \<Rightarrow> create_env" where
  "demo_env sid outcome =
     \<lparr>uuid4 = sid, lookup_error = None, connection = outcome, t_created = 0, t_activity = 0\<rparr>"

definition demo_relay :: "callback list \<Rightarrow> string list \<Rightarrow> relay" where
  "demo_relay cbs output =
     \<lparr>relay_session = demo_session ''s0'' 0 cbs output, delivered = [], logged_errors = 0\<rparr>"

text \<open>
  Three behaviours: callback 1 raises on every delivery; callback 1 unsubscribes itself
  when it is called; callback 1 subscribes callback 3 when it is called. Every other
  callback returns and touches nothing.
\<close>

definition raising_first :: behaviour where
  "raising_first cs cb d = \<lparr>ops = [], raises = (cb = 1)\<rparr>"

definition unsubscribing_first :: behaviour where
  "unsubscribing_first cs cb d =
     \<lparr>ops = (if cb = 1 then [RemoveCallback 1] else []), raises = False\<rparr>"

definition subscribing_first :: behaviour where
  "subscribing_first cs cb d =
     \<lparr>ops = (if cb = 1 then [AddCallback 3] else []), raises = False\<rparr>"

section \<open>The automation engine: properties\<close>

subsection \<open>Literal patterns and the pattern loop\<close>

lemma find_sub_Some:
  "find_sub p buf = Some i \<Longrightarrow> i + length p \<le> length buf \<and> take (length p) (drop i buf) = p"
proof (induction buf arbitrary: i)
  case Nil
  then show ?case by (simp split: if_splits)
next
  case (Cons c cs)
  show ?case
  proof (cases "prefix p (c # cs)")
    case True
    with Cons.prems have "i = 0" by simp
    from True obtain zs where zs: "c # cs = p @ zs" by (auto simp: prefix_def)
    then have "length (c # cs) = length p + length zs" by (metis length_append)
    with zs \<open>i = 0\<close> show ?thesis by simp
  next
    case False
    with Cons.prems obtain j where j: "find_sub p cs = Some j" and i: "i = Suc j"
      by auto
    from Cons.IH [OF j] i show ?thesis by simp
  qed
qed

lemma find_sub_None: "find_sub p buf = None \<longleftrightarrow> \<not> sublist p buf"
proof (induction buf)
  case Nil
  show ?case by simp
next
  case (Cons c cs)
  then show ?case by (simp add: sublist_Cons_right)
qed

lemma check_patterns_Some:
  "check_patterns cps n buf = Some (i, rest) \<Longrightarrow>
     \<exists>s e. n \<le> i \<and> i - n < length cps \<and> (cps ! (i - n)) buf = Some (s, e) \<and>
       (\<forall>j<i - n. (cps ! j) buf = None) \<and> rest = drop e buf"
proof (induction cps arbitrary: n)
  case Nil
  then show ?case by simp
next
  case (Cons p ps)
  show ?case
  proof (cases "p buf")
    case None
    with Cons.prems have "check_patterns ps (Suc n) buf = Some (i, rest)" by simp
    from Cons.IH [OF this] obtain s e where
      le: "Suc n \<le> i" and lt: "i - Suc n < length ps"
      and hit: "(ps ! (i - Suc n)) buf = Some (s, e)"
      and miss: "\<forall>j<i - Suc n. (ps ! j) buf = None" and rest: "rest = drop e buf"
      by blast
    from le have eq: "i - n = Suc (i - Suc n)" by simp
    have "\<forall>j<i - n. ((p # ps) ! j) buf = None"
    proof (intro allI impI)
      fix j assume "j < i - n"
      with eq miss None show "((p # ps) ! j) buf = None"
        by (cases j) auto
    qed
    with le lt hit rest eq show ?thesis by auto
  next
    case (Some m)
    with Cons.prems have "i = n" and "rest = drop (snd m) buf" by auto
    with Some show ?thesis by (cases m) auto
  qed
qed

lemma check_patterns_None:
  "check_patterns cps n buf = None \<longleftrightarrow> (\<forall>j<length cps. (cps ! j) buf = None)"
proof (induction cps arbitrary: n)
  case Nil
  show ?case by simp
next
  case (Cons p ps)
  show ?case
  proof (cases "p buf")
    case None
    then show ?thesis using Cons.IH [of "Suc n"]
      by (auto simp: nth_Cons split: nat.splits)
  next
    case (Some m)
    then show ?thesis by (cases m) force
  qed
qed

lemma pty_read_take:
  "pty_read pty = (d, pty') \<Longrightarrow>
     \<exists>k. d = concat (take k (incoming pty)) \<and> incoming pty' = drop k (incoming pty) \<and>
       connected pty' = connected pty \<and> outgoing pty' = outgoing pty"
proof (cases "connected pty")
  case False
  assume "pty_read pty = (d, pty')"
  with False have "d = [] \<and> pty' = pty" by (simp add: pty_read_def)
  then have "d = concat (take 0 (incoming pty)) \<and> incoming pty' = drop 0 (incoming pty) \<and>
       connected pty' = connected pty \<and> outgoing pty' = outgoing pty" by simp
  then show ?thesis by blast
next
  case True
  assume r: "pty_read pty = (d, pty')"
  show ?thesis
  proof (cases "incoming pty")
    case Nil
    with True r have "d = [] \<and> pty' = pty" by (simp add: pty_read_def)
    with Nil show ?thesis by simp
  next
    case (Cons x xs)
    with True r have "d = x \<and> pty' = pty\<lparr>incoming := xs\<rparr>" by (simp add: pty_read_def)
    with Cons have "d = concat (take 1 (incoming pty)) \<and> incoming pty' = drop 1 (incoming pty) \<and>
       connected pty' = connected pty \<and> outgoing pty' = outgoing pty" by simp
    then show ?thesis by blast
  qed
qed

lemma call_read_Text:
  "call_read ch = (Text d, ch') \<Longrightarrow>
     \<exists>k. d = concat (take k (incoming (handler_of ch))) \<and>
       incoming (handler_of ch') = drop k (incoming (handler_of ch))"
proof (cases ch)
  case (Coroutine_read p)
  assume "call_read ch = (Text d, ch')"
  with Coroutine_read show ?thesis by simp
next
  case (Plain_read p)
  assume "call_read ch = (Text d, ch')"
  with Plain_read have "pty_read p = (d, handler_of ch')"
    by (auto split: prod.splits)
  from pty_read_take [OF this] Plain_read show ?thesis by auto
qed

lemma expect_loop_Inr:
  "expect_loop cps start timeout clock (h, ch) = Some (Inr i, h', ch') \<Longrightarrow>
     \<exists>k. check_patterns cps 0 (buffer h @ concat (take k (incoming (handler_of ch)))) =
           Some (i, buffer h') \<and>
       incoming (handler_of ch') = drop k (incoming (handler_of ch))"
proof (induction clock arbitrary: h ch)
  case Nil
  then show ?case by simp
next
  case (Cons now clock)
  from Cons.prems have live: "now - start < timeout"
    by (auto split: if_splits)
  obtain v ch1 where rd: "call_read ch = (v, ch1)" by (cases "call_read ch")
  with Cons.prems live obtain d where v: "v = Text d"
    by (cases v) auto
  from call_read_Text [OF rd [unfolded v]] obtain k where
    d: "d = concat (take k (incoming (handler_of ch)))"
    and inc: "incoming (handler_of ch1) = drop k (incoming (handler_of ch))"
    by blast
  define h1 where "h1 = (if d \<noteq> [] then h\<lparr>buffer := buffer h @ d\<rparr> else h)"
  have b1: "buffer h1 = buffer h @ d" by (simp add: h1_def)
  show ?case
  proof (cases "check_patterns cps 0 (buffer h1)")
    case None
    with Cons.prems live rd v
    have "expect_loop cps start timeout clock (h1, ch1) = Some (Inr i, h', ch')"
      by (simp add: h1_def Let_def)
    from Cons.IH [OF this] obtain k' where
      "check_patterns cps 0 (buffer h1 @ concat (take k' (incoming (handler_of ch1)))) =
         Some (i, buffer h')"
      and "incoming (handler_of ch') = drop k' (incoming (handler_of ch1))" by blast
    with b1 d inc have
      "check_patterns cps 0 (buffer h @ concat (take (k + k') (incoming (handler_of ch)))) =
         Some (i, buffer h')"
      and "incoming (handler_of ch') = drop (k + k') (incoming (handler_of ch))"
      by (simp_all add: take_add add.commute [of k' k])
    then show ?thesis by blast
  next
    case (Some r)
    obtain i0 rest where r: "r = (i0, rest)" by (cases r)
    with Some Cons.prems live rd v have "i = i0" and "h' = h1\<lparr>buffer := rest\<rparr>" and "ch' = ch1"
      by (simp_all add: h1_def Let_def)
    with Some r b1 d inc show ?thesis by auto
  qed
qed

lemma expect_Inr:
  assumes "expect a timeout clock (h, ch) = Some (Inr i, h', ch')"
  shows "\<exists>k s e. i < length (compiled_patterns a) \<and>
         (compiled_patterns a ! i) (buffer h @ concat (take k (incoming (handler_of ch)))) = Some (s, e) \<and>
         (\<forall>j<i. (compiled_patterns a ! j) (buffer h @ concat (take k (incoming (handler_of ch)))) = None) \<and>
         buffer h' = drop e (buffer h @ concat (take k (incoming (handler_of ch))))"
proof -
  from assms obtain start0 clock0 where "clock = start0 # clock0"
    and "expect_loop (compiled_patterns a) start0 timeout clock0 (h, ch) = Some (Inr i, h', ch')"
    by (auto simp: expect_def split: list.splits)
  from expect_loop_Inr [OF this(2)] obtain k where
    "check_patterns (compiled_patterns a) 0 (buffer h @ concat (take k (incoming (handler_of ch)))) =
       Some (i, buffer h')"
    by blast
  from check_patterns_Some [OF this] show ?thesis by auto
qed

text \<open>
  On the repository's \<open>PTYHandler\<close> the first round of the loop raises \<open>TypeError\<close>:
  \<open>expect\<close> does not await the coroutine that \<open>read\<close> gives it (the relay loop does).
\<close>

lemma expect_on_coroutine_read:
  "now - start < timeout \<Longrightarrow>
     expect a timeout (start # now # clock) (h, Coroutine_read p) =
       Some (Inl TypeError, h, Coroutine_read p)"
  by (simp add: expect_def)

text \<open>
  What the loop does once \<open>read()\<close> delivers text. A successful \<open>expect\<close> returns the
  index of the first pattern, in the order of the supplied list, that finds a match in
  the buffer of that round (the buffer the call started with, followed by what the rounds
  so far have read); no earlier pattern of the list matches that buffer; and the buffer it
  leaves is what follows the end of the match. With the buffer \<open>"ab"\<close> and the patterns
  \<open>["b", "a"]\<close> the index a successful call returns is 0, and on a channel that
  delivers text the first round returns it, whatever that round reads.
\<close>

lemma expect_first_pattern_in_list_order:
  "(expect a timeout clock (h, ch) = Some (Inr i, h', ch') \<longrightarrow>
      (\<exists>k s e. i < length (compiled_patterns a) \<and>
         (compiled_patterns a ! i) (buffer h @ concat (take k (incoming (handler_of ch)))) = Some (s, e) \<and>
         (\<forall>j<i. (compiled_patterns a ! j) (buffer h @ concat (take k (incoming (handler_of ch)))) = None) \<and>
         buffer h' = drop e (buffer h @ concat (take k (incoming (handler_of ch)))))) \<and>
   (expect (Many [Str ''b'', Str ''a'']) timeout clock (h\<lparr>buffer := ''ab''\<rparr>, ch) =
      Some (Inr i, h', ch') \<longrightarrow> i = 0) \<and>
   (now - start < timeout \<longrightarrow>
      expect (Many [Str ''b'', Str ''a'']) timeout (start # now # clock') (h\<lparr>buffer := ''ab''\<rparr>, Plain_read pty)
        = Some (Inr 0, h\<lparr>buffer := fst (pty_read pty)\<rparr>, Plain_read (snd (pty_read pty))))"
proof (intro conjI impI)
  assume "expect a timeout clock (h, ch) = Some (Inr i, h', ch')"
  then show "\<exists>k s e. i < length (compiled_patterns a) \<and>
         (compiled_patterns a ! i) (buffer h @ concat (take k (incoming (handler_of ch)))) = Some (s, e) \<and>
         (\<forall>j<i. (compiled_patterns a ! j) (buffer h @ concat (take k (incoming (handler_of ch)))) = None) \<and>
         buffer h' = drop e (buffer h @ concat (take k (incoming (handler_of ch))))"
    by (rule expect_Inr)
next
  assume "expect (Many [Str ''b'', Str ''a'']) timeout clock (h\<lparr>buffer := ''ab''\<rparr>, ch) =
      Some (Inr i, h', ch')"
  from expect_Inr [OF this] obtain k where
    miss: "\<forall>j<i. (compiled_patterns (Many [Str ''b'', Str ''a'']) ! j)
        (''ab'' @ concat (take k (incoming (handler_of ch)))) = None"
    by auto
  have "find_sub ''b'' (''ab'' @ d) = Some 1" for d by simp
  then have hit: "(compiled_patterns (Many [Str ''b'', Str ''a'']) ! 0) (''ab'' @ d) \<noteq> None" for d
    by (simp add: compiled_patterns_def pattern_list_def compile_pattern_def compile_escaped_def)
  show "i = 0"
  proof (rule ccontr)
    assume "i \<noteq> 0"
    then have "0 < i" by simp
    with miss have "(compiled_patterns (Many [Str ''b'', Str ''a'']) ! 0)
        (''ab'' @ concat (take k (incoming (handler_of ch)))) = None" by blast
    with hit show False by blast
  qed
next
  assume live: "now - start < timeout"
  obtain d pty1 where rd: "pty_read pty = (d, pty1)" by (cases "pty_read pty")
  have "find_sub ''b'' (''ab'' @ d') = Some 1" for d' by simp
  then have "check_patterns (compiled_patterns (Many [Str ''b'', Str ''a''])) 0 (''ab'' @ d') = Some (0, d')" for d'
    by (simp add: compiled_patterns_def pattern_list_def compile_pattern_def compile_escaped_def)
  from this [of d] this [of "[]"] live rd show "expect (Many [Str ''b'', Str ''a'']) timeout (start # now # clock') (h\<lparr>buffer := ''ab''\<rparr>, Plain_read pty)
        = Some (Inr 0, h\<lparr>buffer := fst (pty_read pty)\<rparr>, Plain_read (snd (pty_read pty)))"
    by (simp add: expect_def Let_def)
qed

lemma expect_first_pattern_in_list_order_example:
  "expect (Many [Str ''b'', Str ''a'']) 30 [0, 1 / 10] (\<lparr>buffer = ''ab''\<rparr>, Plain_read (demo_pty []))
     = Some (Inr 0, \<lparr>buffer = []\<rparr>, Plain_read (demo_pty [])) \<and>
   (\<exists>k s e. compile_escaped ''b'' (''ab'' @ concat (take k [])) = Some (s, e) \<and> [] = drop e (''ab'' @ concat (take k [])))"
proof -
  have live: "(1 / 10 :: rat) - 0 < 30" by simp
  have run: "expect (Many [Str ''b'', Str ''a'']) 30 [0, 1 / 10] (\<lparr>buffer = ''ab''\<rparr>, Plain_read (demo_pty []))
     = Some (Inr 0, \<lparr>buffer = []\<rparr>, Plain_read (demo_pty []))"
    using expect_first_pattern_in_list_order [THEN conjunct2, THEN conjunct2, rule_format, OF live, of "[]" "\<lparr>buffer = ''ab''\<rparr>" "demo_pty []"]
    by (simp add: pty_read_def demo_pty_def)
  from expect_first_pattern_in_list_order [THEN conjunct1, rule_format, OF run]
  show ?thesis using run
    by (auto simp: compiled_patterns_def pattern_list_def compile_pattern_def demo_pty_def)
qed

text \<open>
  Conversely, on a channel that delivers text: if in the first round, before the
  deadline, the pattern at position \<open>i\<close> finds a match in the buffer and no pattern
  before it does, that round returns \<open>i\<close>, also when \<open>i\<close> is not the first position.
\<close>

lemma check_patterns_first_match:
  "i < length cps \<Longrightarrow> (cps ! i) buf = Some (s, e) \<Longrightarrow> \<forall>j<i. (cps ! j) buf = None \<Longrightarrow>
     check_patterns cps n buf = Some (n + i, drop e buf)"
proof (induction cps arbitrary: i n)
  case Nil
  then show ?case by simp
next
  case (Cons p ps)
  show ?case
  proof (cases i)
    case 0
    with Cons.prems(2) show ?thesis by simp
  next
    case (Suc i')
    with Cons.prems(3) have miss: "p buf = None" by auto
    from Suc Cons.prems have "i' < length ps" and "(ps ! i') buf = Some (s, e)"
      and "\<forall>j<i'. (ps ! j) buf = None" by auto
    from Cons.IH [OF this, of "Suc n"] miss Suc show ?thesis by simp
  qed
qed

lemma expect_first_round_returns_index:
  assumes "now - start < timeout"
    and "i < length (compiled_patterns a)"
    and "(compiled_patterns a ! i) (buffer h @ fst (pty_read pty)) = Some (s, e)"
    and "\<forall>j<i. (compiled_patterns a ! j) (buffer h @ fst (pty_read pty)) = None"
  shows "expect a timeout (start # now # clock) (h, Plain_read pty) =
           Some (Inr i, h\<lparr>buffer := drop e (buffer h @ fst (pty_read pty))\<rparr>,
                 Plain_read (snd (pty_read pty)))"
proof -
  obtain d pty1 where rd: "pty_read pty = (d, pty1)" by (cases "pty_read pty")
  from check_patterns_first_match [OF assms(2,3,4), of 0] rd
  have hit: "check_patterns (compiled_patterns a) 0 (buffer h @ d) = Some (i, drop e (buffer h @ d))"
    by simp
  show ?thesis
  proof (cases "d = []")
    case True
    with hit assms(1) rd show ?thesis by (simp add: expect_def)
  next
    case False
    with hit assms(1) rd show ?thesis by (simp add: expect_def Let_def)
  qed
qed

lemma expect_returns_later_index_example:
  "expect (Many [Str ''z'', Str ''b'']) 30 [0, 1 / 10]
      (\<lparr>buffer = ''ab''\<rparr>, Plain_read (demo_pty [])) =
     Some (Inr 1, \<lparr>buffer = []\<rparr>, Plain_read (demo_pty []))"
  by (simp add: expect_def compiled_patterns_def pattern_list_def compile_pattern_def
      compile_escaped_def pty_read_def demo_pty_def)

text \<open>
  Claim C1. An automation handler as \<open>create_session\<close> makes it, on a
  \<open>PTYHandler\<close>, with the buffer \<open>"ab"\<close>; \<open>expect(["b", "a"], 30)\<close> is called and
  the clock reads 0 and 0.1. The first round is before the deadline; its \<open>read()\<close>
  gives a coroutine object, which \<open>expect\<close> adds to the buffer: the call raises
  \<open>TypeError\<close> and returns no index, where the claim has it return 0. On that channel
  no call of \<open>expect\<close>, with any patterns, buffer and clock, returns an index.
\<close>

theorem expect_on_pty_handler_returns_no_index:
  "expect (Many [Str ''b'', Str ''a'']) 30 [0, 1 / 10]
      (\<lparr>buffer = ''ab''\<rparr>, Coroutine_read (demo_pty [])) =
     Some (Inl TypeError, \<lparr>buffer = ''ab''\<rparr>, Coroutine_read (demo_pty [])) \<and>
   expect a timeout clock (h, Coroutine_read p) \<noteq> Some (Inr i, h', ch')"
proof
  show "expect (Many [Str ''b'', Str ''a'']) 30 [0, 1 / 10]
      (\<lparr>buffer = ''ab''\<rparr>, Coroutine_read (demo_pty [])) =
     Some (Inl TypeError, \<lparr>buffer = ''ab''\<rparr>, Coroutine_read (demo_pty []))"
    by (simp add: expect_def)
  show "expect a timeout clock (h, Coroutine_read p) \<noteq> Some (Inr i, h', ch')"
  proof (cases clock)
    case Nil
    then show ?thesis by (simp add: expect_def)
  next
    case (Cons start_time clock')
    then show ?thesis by (cases clock') (simp_all add: expect_def)
  qed
qed

subsection \<open>The deadline\<close>

lemma read_seq_Suc:
  "pty_read p = (d, p') \<Longrightarrow> read_seq (Suc k) p = (d # fst (read_seq k p'), snd (read_seq k p'))"
  by (simp add: case_prod_unfold)

lemma expect_loop_timeout:
  assumes "\<forall>t\<in>set ticks. t - start < timeout"
    and "\<not> late - start < timeout"
    and "\<forall>k. 1 \<le> k \<and> k \<le> length ticks \<longrightarrow>
           check_patterns cps 0 (buffer h @ concat (fst (read_seq k pty))) = None"
  shows "expect_loop cps start timeout (ticks @ late # rest) (h, Plain_read pty) =
           Some (Inl (TimeoutError timeout),
                 h\<lparr>buffer := buffer h @ concat (fst (read_seq (length ticks) pty))\<rparr>,
                 Plain_read (snd (read_seq (length ticks) pty)))"
  using assms
proof (induction ticks arbitrary: h pty)
  case Nil
  then show ?case by simp
next
  case (Cons t ticks)
  obtain d pty1 where rd: "pty_read pty = (d, pty1)" by (cases "pty_read pty")
  define h1 where "h1 = (if d \<noteq> [] then h\<lparr>buffer := buffer h @ d\<rparr> else h)"
  have b1: "buffer h1 = buffer h @ d" by (simp add: h1_def)
  have h1: "h1 = h\<lparr>buffer := buffer h @ d\<rparr>" by (simp add: h1_def)
  from Cons.prems(1) have live: "t - start < timeout" by simp
  have seq: "fst (read_seq (Suc k) pty) = d # fst (read_seq k pty1)"
    and seq': "snd (read_seq (Suc k) pty) = snd (read_seq k pty1)" for k
    using read_seq_Suc [OF rd, of k] by simp_all
  from Cons.prems(3) [rule_format, of 1] seq [of 0] b1
  have miss: "check_patterns cps 0 (buffer h1) = None" by simp
  have "\<forall>k. 1 \<le> k \<and> k \<le> length ticks \<longrightarrow>
           check_patterns cps 0 (buffer h1 @ concat (fst (read_seq k pty1))) = None"
  proof (intro allI impI)
    fix k assume "1 \<le> k \<and> k \<le> length ticks"
    with Cons.prems(3) [rule_format, of "Suc k"] seq [of k] b1
    show "check_patterns cps 0 (buffer h1 @ concat (fst (read_seq k pty1))) = None" by simp
  qed
  with Cons.prems(1,2) have IH:
    "expect_loop cps start timeout (ticks @ late # rest) (h1, Plain_read pty1) =
       Some (Inl (TimeoutError timeout),
             h1\<lparr>buffer := buffer h1 @ concat (fst (read_seq (length ticks) pty1))\<rparr>,
             Plain_read (snd (read_seq (length ticks) pty1)))"
    by (intro Cons.IH) simp_all
  from live rd miss have unfold:
    "expect_loop cps start timeout ((t # ticks) @ late # rest) (h, Plain_read pty) =
       expect_loop cps start timeout (ticks @ late # rest) (h1, Plain_read pty1)"
    by (simp add: h1_def Let_def)
  have "h1\<lparr>buffer := buffer h1 @ concat (fst (read_seq (length ticks) pty1))\<rparr> =
      h\<lparr>buffer := buffer h @ concat (fst (read_seq (length (t # ticks)) pty))\<rparr>"
    using seq [of "length ticks"] by (simp add: h1 del: read_seq.simps)
  moreover have "snd (read_seq (length ticks) pty1) = snd (read_seq (length (t # ticks)) pty)"
    using seq' [of "length ticks"] by (simp del: read_seq.simps)
  ultimately show ?case using unfold IH by (simp del: read_seq.simps)
qed

text \<open>
  On a channel that delivers text the deadline works as documented. Let the clock
  readings of the rounds \<open>ticks\<close> all lie before the deadline and the next reading
  \<open>late\<close> not, and let no supplied pattern find a match in the buffer of any of those
  rounds. Then \<open>expect\<close> ends with \<open>TimeoutError\<close>, not with an index, and it has
  discarded nothing: the buffer is the one the call started with, followed by everything
  the rounds have read.
\<close>

lemma expect_timeout_keeps_buffer:
  assumes "\<forall>t\<in>set ticks. t - start < timeout"
    and "\<not> late - start < timeout"
    and "\<forall>k j. 1 \<le> k \<and> k \<le> length ticks \<and> j < length (compiled_patterns a) \<longrightarrow>
           (compiled_patterns a ! j) (buffer h @ concat (fst (read_seq k pty))) = None"
  shows "expect a timeout (start # ticks @ late # rest) (h, Plain_read pty) =
           Some (Inl (TimeoutError timeout),
                 h\<lparr>buffer := buffer h @ concat (fst (read_seq (length ticks) pty))\<rparr>,
                 Plain_read (snd (read_seq (length ticks) pty)))"
proof -
  from assms(3) have "\<forall>k. 1 \<le> k \<and> k \<le> length ticks \<longrightarrow>
      check_patterns (compiled_patterns a) 0 (buffer h @ concat (fst (read_seq k pty))) = None"
    by (simp add: check_patterns_None)
  from expect_loop_timeout [OF assms(1,2) this] show ?thesis
    by (simp add: expect_def)
qed

lemma expect_timeout_keeps_buffer_example:
  "expect (Many [Str ''zz'', Str ''$'']) (1 / 5) [0, 1 / 10, 3 / 10, 4 / 10]
      (\<lparr>buffer = ''ab''\<rparr>, Plain_read (demo_pty [''cd'', ''ef''])) =
     Some (Inl (TimeoutError (1 / 5)), \<lparr>buffer = ''abcd''\<rparr>, Plain_read (demo_pty [''ef'']))"
proof -
  have a: "\<forall>t\<in>set [1 / 10 :: rat]. t - 0 < 1 / 5" by simp
  have b: "\<not> (3 / 10 :: rat) - 0 < 1 / 5" by simp
  have rs: "read_seq 1 (demo_pty [''cd'', ''ef'']) = ([''cd''], demo_pty [''ef''])"
    by (simp add: pty_read_def demo_pty_def)
  have c: "\<forall>k j. 1 \<le> k \<and> k \<le> length [1 / 10 :: rat] \<and>
        j < length (compiled_patterns (Many [Str ''zz'', Str ''$''])) \<longrightarrow>
      (compiled_patterns (Many [Str ''zz'', Str ''$'']) ! j)
        (buffer \<lparr>buffer = ''ab''\<rparr> @ concat (fst (read_seq k (demo_pty [''cd'', ''ef''])))) = None"
  proof (intro allI impI)
    fix k j :: nat
    assume h: "1 \<le> k \<and> k \<le> length [1 / 10 :: rat] \<and>
        j < length (compiled_patterns (Many [Str ''zz'', Str ''$'']))"
    then have k: "k = 1" by simp
    from h have "j = 0 \<or> j = 1"
      by (auto simp: compiled_patterns_def pattern_list_def)
    then show "(compiled_patterns (Many [Str ''zz'', Str ''$'']) ! j)
        (buffer \<lparr>buffer = ''ab''\<rparr> @ concat (fst (read_seq k (demo_pty [''cd'', ''ef''])))) = None"
      unfolding k rs
      by (auto simp: compiled_patterns_def pattern_list_def compile_pattern_def compile_escaped_def)
  qed
  from expect_timeout_keeps_buffer [OF a b c, of "[4 / 10]"] rs show ?thesis by simp
qed

text \<open>
  Claim C3. An automation handler as \<open>create_session\<close> makes it, on a
  \<open>PTYHandler\<close>, with the buffer \<open>"ab"\<close>; \<open>expect(["zz"], 0.2)\<close> is called, the
  clock reads 0, 0.1, 0.3, and \<open>"zz"\<close> never occurs. The first round is before the
  deadline; its \<open>read()\<close> gives a coroutine object, which \<open>expect\<close> adds to the buffer:
  the call ends with \<open>TypeError\<close>, not with \<open>TimeoutError\<close>. It returns no index
  and the buffer is unchanged.
\<close>

theorem expect_on_pty_handler_raises_TypeError:
  "expect (Many [Str ''zz'']) (1 / 5) [0, 1 / 10, 3 / 10]
      (\<lparr>buffer = ''ab''\<rparr>, Coroutine_read (demo_pty [''cd''])) =
     Some (Inl TypeError, \<lparr>buffer = ''ab''\<rparr>, Coroutine_read (demo_pty [''cd'']))"
  by (simp add: expect_def)

subsection \<open>\<open>send_command\<close>\<close>

text \<open>
  Claim C2. After \<open>send_command("ls", True, "$")\<close> a channel that delivers text
  delivers \<open>"file1\n$ "\<close>. The prompt is found at offsets 6 to 7, so the text between
  the send and the prompt is \<open>"file1\n"\<close>; \<open>expect\<close> has cut the buffer at the end of
  the match, and \<open>send_command\<close> returns what is left of it, the text after the
  prompt, \<open>" "\<close>. The buffer was emptied and \<open>"ls\n"\<close> written before the wait. On
  the repository's \<open>PTYHandler\<close> the same call raises \<open>TypeError\<close> in the first round
  of the wait.
\<close>

theorem send_command_returns_text_after_prompt:
  "send_command ''ls'' True ''$'' [0, 1 / 10]
      (\<lparr>buffer = ''old''\<rparr>, Plain_read (demo_pty [''file1'' @ [CHR 0x0A] @ ''$ ''])) =
     Some (Inr '' '', \<lparr>buffer = '' ''\<rparr>,
           Plain_read ((demo_pty [])\<lparr>outgoing := [''ls'' @ [CHR 0x0A]]\<rparr>)) \<and>
   compile_escaped ''$'' (''file1'' @ [CHR 0x0A] @ ''$ '') = Some (6, 7) \<and>
   take 6 (''file1'' @ [CHR 0x0A] @ ''$ '') = ''file1'' @ [CHR 0x0A] \<and>
   send_command ''ls'' True ''$'' [0, 1 / 10]
      (\<lparr>buffer = ''old''\<rparr>, Coroutine_read (demo_pty [''file1'' @ [CHR 0x0A] @ ''$ ''])) =
     Some (Inl TypeError, \<lparr>buffer = []\<rparr>,
           Coroutine_read ((demo_pty [''file1'' @ [CHR 0x0A] @ ''$ ''])\<lparr>outgoing := [''ls'' @ [CHR 0x0A]]\<rparr>))"
  by (simp add: send_command_def sendline_def send_def pty_write_def expect_def
      compiled_patterns_def pattern_list_def compile_pattern_def compile_escaped_def
      pty_read_def demo_pty_def)

section \<open>The registry: properties\<close>

lemma close_session_present:
  "map_of (sessions m) sid = Some s \<Longrightarrow>
     close_session m sid = (True, m\<lparr>sessions := AList.delete sid (sessions m)\<rparr>, Some (close s))"
  by (simp add: close_session_def)

lemma close_session_absent:
  "map_of (sessions m) sid = None \<Longrightarrow> close_session m sid = (False, m, None)"
  by (simp add: close_session_def)

lemma close_marks_inactive:
  "\<not> active (close s) \<and> \<not> connected (pty_handler (close s)) \<and>
   socket_closed (pty_handler (close s)) \<and>
   pexpect_handler (close s) = map_option pexpect_close (pexpect_handler s) \<and>
   session_id (close s) = session_id s"
  by (cases "pexpect_handler s") (simp_all add: close_def pty_close_def Let_def)

text \<open>
  Claim C6. \<open>close_session\<close> returns \<open>False\<close> for an id the registry does not hold
  and changes nothing. For an id it holds it closes the session (inactive, channel
  disconnected), removes that entry and no other, and returns \<open>True\<close>; the same call
  again, right after, returns \<open>False\<close>.
\<close>

theorem close_session_result:
  "(get_session m sid = None \<longrightarrow> close_session m sid = (False, m, None)) \<and>
   (get_session m sid = Some s \<longrightarrow>
      close_session m sid = (True, m\<lparr>sessions := AList.delete sid (sessions m)\<rparr>, Some (close s)) \<and>
      \<not> active (close s) \<and> \<not> connected (pty_handler (close s)) \<and>
      map_of (sessions (fst (snd (close_session m sid)))) = (map_of (sessions m))(sid := None) \<and>
      get_session (fst (snd (close_session m sid))) sid = None \<and>
      close_session (fst (snd (close_session m sid))) sid =
        (False, fst (snd (close_session m sid)), None))"
proof (intro conjI impI)
  assume "get_session m sid = None"
  then show "close_session m sid = (False, m, None)"
    by (simp add: get_session_def close_session_absent)
next
  assume "get_session m sid = Some s"
  then have present: "map_of (sessions m) sid = Some s" by (simp add: get_session_def)
  then have first: "close_session m sid =
      (True, m\<lparr>sessions := AList.delete sid (sessions m)\<rparr>, Some (close s))"
    by (rule close_session_present)
  then show "close_session m sid =
      (True, m\<lparr>sessions := AList.delete sid (sessions m)\<rparr>, Some (close s))" .
  show "\<not> active (close s)" and "\<not> connected (pty_handler (close s))"
    using close_marks_inactive [of s] by simp_all
  from first show "map_of (sessions (fst (snd (close_session m sid)))) = (map_of (sessions m))(sid := None)"
    by (simp add: delete_conv')
  from first have gone: "map_of (sessions (fst (snd (close_session m sid)))) sid = None"
    by (simp add: delete_conv')
  then show "get_session (fst (snd (close_session m sid))) sid = None"
    by (simp add: get_session_def)
  from gone show "close_session (fst (snd (close_session m sid))) sid =
        (False, fst (snd (close_session m sid)), None)"
    by (rule close_session_absent)
qed

theorem close_session_result_witness:
  "close_session (demo_manager 10 [(''s1'', demo_session ''s1'' 0 [] [])]) ''s1'' =
     (True, demo_manager 10 [], Some (close (demo_session ''s1'' 0 [] []))) \<and>
   close_session (demo_manager 10 []) ''s1'' = (False, demo_manager 10 [], None)"
proof -
  have a: "get_session (demo_manager 10 [(''s1'', demo_session ''s1'' 0 [] [])]) ''s1'' =
      Some (demo_session ''s1'' 0 [] [])"
    by (simp add: get_session_def demo_manager_def)
  have b: "get_session (demo_manager 10 []) ''s1'' = None"
    by (simp add: get_session_def demo_manager_def)
  from close_session_result [THEN conjunct2, rule_format, OF a]
    close_session_result [THEN conjunct1, rule_format, OF b]
  show ?thesis by (simp add: demo_manager_def)
qed

text \<open>
  Claim C4. With as many sessions as \<open>max_sessions\<close>, or more, \<open>create_session\<close>
  raises the registry's capacity error (a \<open>RuntimeError\<close>) and returns no id; the
  registry is as before, and the call leaves nothing waiting.
\<close>

theorem create_session_at_capacity:
  assumes "max_sessions m \<le> int (length (sessions m))"
  shows "create_session m cid command use_pexpect env = (Inl (RuntimeError (max_sessions m)), m) \<and>
         step \<lparr>manager = m, suspended = q\<rparr> (CreateCall t uuid cid use_pexpect lookup) =
           \<lparr>manager = m, suspended = q\<rparr>"
  using assms by (simp add: create_session_def create_begin_def)

theorem create_session_at_capacity_witness:
  "create_session (demo_manager 1 [(''s1'', demo_session ''s1'' 0 [] [])]) ''c0'' None False
      (demo_env ''s2'' (Established [])) =
     (Inl (RuntimeError 1), demo_manager 1 [(''s1'', demo_session ''s1'' 0 [] [])])"
proof -
  have "max_sessions (demo_manager 1 [(''s1'', demo_session ''s1'' 0 [] [])])
      \<le> int (length (sessions (demo_manager 1 [(''s1'', demo_session ''s1'' 0 [] [])])))"
    by (simp add: demo_manager_def)
  from create_session_at_capacity [OF this, THEN conjunct1] show ?thesis
    by (simp add: demo_manager_def)
qed

text \<open>
  Claim C10. Whenever \<open>create_session\<close> raises, the registry is unchanged. When the
  connection is refused (or the runtime's lookup of the container fails) below capacity,
  that exception is what the caller gets; the generated id is not registered, so looking
  it up gives nothing and the listing is as before. The same holds when the refusal
  reaches a call that was waiting for its connection.
\<close>

theorem create_session_connect_failure:
  "(fst (create_session m cid command use_pexpect env) = Inl e \<longrightarrow>
      snd (create_session m cid command use_pexpect env) = m) \<and>
   (int (length (sessions m)) < max_sessions m \<and> lookup_error env = None \<and>
    connection env = Refused msg \<longrightarrow>
      create_session m cid command use_pexpect env = (Inl (DockerError msg), m)) \<and>
   (int (length (sessions m)) < max_sessions m \<and> lookup_error env = Some msg \<longrightarrow>
      create_session m cid command use_pexpect env = (Inl (DockerError msg), m)) \<and>
   (connection env = Refused msg \<and> get_session m (uuid4 env) = None \<longrightarrow>
      get_session (snd (create_session m cid command use_pexpect env)) (uuid4 env) = None \<and>
      list_sessions (snd (create_session m cid command use_pexpect env)) = list_sessions m) \<and>
   manager (step \<lparr>manager = m, suspended = q\<rparr> (CreateResume t (Refused msg) t1 t2)) = m"
  by (auto simp: create_session_def create_begin_def create_finish_def Let_def
      split: option.splits connect_outcome.splits)

theorem create_session_connect_failure_witness:
  "create_session (demo_manager 10 []) ''c0'' None True (demo_env ''s1'' (Refused ''no such container'')) =
     (Inl (DockerError ''no such container''), demo_manager 10 []) \<and>
   get_session (demo_manager 10 []) ''s1'' = None"
proof -
  have "int (length (sessions (demo_manager 10 []))) < max_sessions (demo_manager 10 []) \<and>
      lookup_error (demo_env ''s1'' (Refused ''no such container'')) = None \<and>
      connection (demo_env ''s1'' (Refused ''no such container'')) = Refused ''no such container''"
    by (simp add: demo_manager_def demo_env_def)
  from create_session_connect_failure [THEN conjunct2, THEN conjunct1, rule_format, OF this]
  show ?thesis by (simp add: get_session_def demo_manager_def)
qed

section \<open>The reaper: properties\<close>

lemma close_all_present:
  assumes "distinct ids" and "set ids \<subseteq> fst ` set (sessions m)"
  shows "close_all ids (m, cl) =
           (m\<lparr>sessions := filter (\<lambda>p. fst p \<notin> set ids) (sessions m)\<rparr>,
            cl @ map (\<lambda>sid. close (the (map_of (sessions m) sid))) ids)"
  using assms
proof (induction ids arbitrary: m cl)
  case Nil
  then show ?case by simp
next
  case (Cons sid ids)
  from Cons.prems(2) have "sid \<in> fst ` set (sessions m)" by simp
  then obtain s where s: "map_of (sessions m) sid = Some s"
    by (metis domD dom_map_of_conv_image_fst)
  define m1 where "m1 = m\<lparr>sessions := AList.delete sid (sessions m)\<rparr>"
  have del: "AList.delete sid xs = filter (\<lambda>p. fst p \<noteq> sid) xs" for xs :: "(string \<times> session) list"
    by (auto simp: AList.delete_eq case_prod_unfold intro: filter_cong)
  have m1: "sessions m1 = filter (\<lambda>p. fst p \<noteq> sid) (sessions m)"
    by (simp add: m1_def del)
  from Cons.prems have fresh: "sid \<notin> set ids" and d: "distinct ids" by simp_all
  have sub: "set ids \<subseteq> fst ` set (sessions m1)"
  proof
    fix k assume k: "k \<in> set ids"
    with Cons.prems(2) obtain p where "p \<in> set (sessions m)" and "fst p = k" by auto
    moreover from k fresh have "k \<noteq> sid" by auto
    ultimately have "p \<in> set (sessions m1)" by (simp add: m1)
    with \<open>fst p = k\<close> show "k \<in> fst ` set (sessions m1)" by force
  qed
  have same: "map_of (sessions m1) k = map_of (sessions m) k" if "k \<in> set ids" for k
    using that fresh by (auto simp: m1_def delete_conv')
  have "close_all (sid # ids) (m, cl) = close_all ids (m1, cl @ [close s])"
    by (simp add: close_session_present [OF s] m1_def)
  also have "\<dots> = (m1\<lparr>sessions := filter (\<lambda>p. fst p \<notin> set ids) (sessions m1)\<rparr>,
      (cl @ [close s]) @ map (\<lambda>sid. close (the (map_of (sessions m1) sid))) ids)"
    by (rule Cons.IH [OF d sub])
  also have "m1\<lparr>sessions := filter (\<lambda>p. fst p \<notin> set ids) (sessions m1)\<rparr> =
      m\<lparr>sessions := filter (\<lambda>p. fst p \<notin> set (sid # ids)) (sessions m)\<rparr>"
    by (simp add: m1_def del conj_commute)
  finally show ?case using s same by (simp cong: map_cong)
qed

lemma timed_out_ids_distinct:
  "distinct (map fst (sessions m)) \<Longrightarrow> distinct (timed_out_ids now m)"
  by (simp add: timed_out_ids_def distinct_map_filter)

lemma cleanup_pass_eq:
  assumes "distinct (map fst (sessions m))"
  shows "cleanup_pass now m =
           (m\<lparr>sessions := filter (\<lambda>(sid, s). \<not> now - last_activity s > timedelta_seconds (timeout_seconds m))
                             (sessions m)\<rparr>,
            map (\<lambda>(sid, s). close s)
              (filter (\<lambda>(sid, s). now - last_activity s > timedelta_seconds (timeout_seconds m))
                 (sessions m)))"
proof -
  let ?stale = "\<lambda>(sid :: string, s). now - last_activity s > timedelta_seconds (timeout_seconds m)"
  let ?ids = "timed_out_ids now m"
  have ids: "?ids = map fst (filter ?stale (sessions m))" by (simp add: timed_out_ids_def)
  have sub: "set ?ids \<subseteq> fst ` set (sessions m)" by (auto simp: ids)
  have key: "fst p \<in> set ?ids \<longleftrightarrow> ?stale p" if "p \<in> set (sessions m)" for p
  proof
    assume "fst p \<in> set ?ids"
    then obtain q where q: "q \<in> set (sessions m)" "?stale q" "fst q = fst p"
      by (auto simp: ids)
    from assms q(1) that q(3) have "q = p"
      by (metis eq_key_imp_eq_value prod.collapse)
    with q(2) show "?stale p" by simp
  next
    assume "?stale p"
    with that show "fst p \<in> set ?ids" by (force simp: ids)
  qed
  have keep: "filter (\<lambda>p. fst p \<notin> set ?ids) (sessions m) = filter (\<lambda>p. \<not> ?stale p) (sessions m)"
    by (rule filter_cong) (simp_all add: key)
  have lookup: "the (map_of (sessions m) (fst p)) = snd p" if "p \<in> set (sessions m)" for p
    using assms that by (cases p) simp
  have "map (\<lambda>sid. close (the (map_of (sessions m) sid))) ?ids =
      map (\<lambda>p. close (snd p)) (filter ?stale (sessions m))"
    by (simp add: ids comp_def lookup cong: map_cong)
  with close_all_present [OF timed_out_ids_distinct [OF assms] sub, of "[]"] keep
  show ?thesis by (simp add: cleanup_pass_def case_prod_unfold)
qed

lemma send_input_last_activity: "last_activity (send_input data t s) = t"
  by (cases "pexpect_handler s") (simp_all add: send_input_def Let_def)

lemma close_eq:
  "close s =
     s\<lparr>active := False,
       pexpect_handler := map_option (\<lambda>h. h\<lparr>buffer := []\<rparr>) (pexpect_handler s),
       pty_handler := (pty_handler s)\<lparr>socket_closed := True, connected := False\<rparr>\<rparr>"
  by (cases "pexpect_handler s") (simp_all add: close_def pexpect_close_def pty_close_def Let_def)

text \<open>
  Claim C7. One pass of the reaper at time \<open>now\<close>, on a registry with distinct keys.
  A session whose last activity is more than \<open>timeout_seconds\<close> before \<open>now\<close> is no
  longer registered, and it has been closed: the pass has left that session object
  inactive, with its automation buffer emptied and its channel's socket closed and
  disconnected. Every session object the pass closed is inactive and disconnected. A
  session whose last activity is not that old is registered as it was, in particular
  one whose last \<open>send_input\<close> lies within the window.
\<close>

theorem cleanup_pass_reaps_idle:
  assumes "distinct (map fst (sessions m))"
  shows "(\<forall>sid s. get_session m sid = Some s \<and>
              now - last_activity s > timedelta_seconds (timeout_seconds m) \<longrightarrow>
            get_session (fst (cleanup_pass now m)) sid = None \<and>
            s\<lparr>active := False,
              pexpect_handler := map_option (\<lambda>h. h\<lparr>buffer := []\<rparr>) (pexpect_handler s),
              pty_handler := (pty_handler s)\<lparr>socket_closed := True, connected := False\<rparr>\<rparr>
              \<in> set (snd (cleanup_pass now m))) \<and>
         (\<forall>c\<in>set (snd (cleanup_pass now m)).
            \<not> active c \<and> \<not> connected (pty_handler c) \<and> socket_closed (pty_handler c)) \<and>
         (\<forall>sid s. get_session m sid = Some s \<and>
              \<not> now - last_activity s > timedelta_seconds (timeout_seconds m) \<longrightarrow>
            get_session (fst (cleanup_pass now m)) sid = Some s) \<and>
         (\<forall>sid s data t. get_session m sid = Some (send_input data t s) \<and>
              now - t \<le> timedelta_seconds (timeout_seconds m) \<longrightarrow>
            get_session (fst (cleanup_pass now m)) sid = Some (send_input data t s))"
proof -
  let ?stale = "\<lambda>(sid :: string, s). now - last_activity s > timedelta_seconds (timeout_seconds m)"
  note pass = cleanup_pass_eq [OF assms, of now]
  have gone0: "get_session (fst (cleanup_pass now m)) sid = None \<and>
      close s \<in> set (snd (cleanup_pass now m))"
    if "get_session m sid = Some s" and "now - last_activity s > timedelta_seconds (timeout_seconds m)"
    for sid s
  proof
    from that(1) have mem: "(sid, s) \<in> set (sessions m)"
      by (auto simp: get_session_def dest: map_of_SomeD)
    have "sid \<notin> fst ` set (filter (\<lambda>p. \<not> ?stale p) (sessions m))"
    proof
      assume "sid \<in> fst ` set (filter (\<lambda>p. \<not> ?stale p) (sessions m))"
      then obtain s' where "(sid, s') \<in> set (sessions m)" and fresh: "\<not> ?stale (sid, s')"
        by auto
      with assms mem have "s' = s" by (meson eq_key_imp_eq_value)
      with fresh that(2) show False by simp
    qed
    then show "get_session (fst (cleanup_pass now m)) sid = None"
      by (simp add: pass get_session_def map_of_eq_None_iff case_prod_unfold)
    from mem that(2) have "(sid, s) \<in> set (filter ?stale (sessions m))" by simp
    then have "close s \<in> (\<lambda>(sid, s). close s) ` set (filter ?stale (sessions m))"
      by force
    then show "close s \<in> set (snd (cleanup_pass now m))" by (simp add: pass)
  qed
  have gone: "get_session (fst (cleanup_pass now m)) sid = None \<and>
      s\<lparr>active := False,
        pexpect_handler := map_option (\<lambda>h. h\<lparr>buffer := []\<rparr>) (pexpect_handler s),
        pty_handler := (pty_handler s)\<lparr>socket_closed := True, connected := False\<rparr>\<rparr>
        \<in> set (snd (cleanup_pass now m))"
    if "get_session m sid = Some s" and "now - last_activity s > timedelta_seconds (timeout_seconds m)"
    for sid s
    using gone0 [OF that] by (simp only: close_eq)
  have shut: "\<not> active c \<and> \<not> connected (pty_handler c) \<and> socket_closed (pty_handler c)"
    if "c \<in> set (snd (cleanup_pass now m))" for c
  proof -
    from that obtain s where "c = close s" by (auto simp: pass)
    then show ?thesis by (simp add: close_eq)
  qed
  have kept: "get_session (fst (cleanup_pass now m)) sid = Some s"
    if "get_session m sid = Some s" and "\<not> now - last_activity s > timedelta_seconds (timeout_seconds m)"
    for sid s
  proof -
    from that(1) have "map_of (sessions m) sid = Some s" by (simp add: get_session_def)
    from map_of_filter_in [OF this, of "\<lambda>sid s. \<not> now - last_activity s > timedelta_seconds (timeout_seconds m)"] that(2)
    show ?thesis by (simp add: pass get_session_def)
  qed
  have "get_session (fst (cleanup_pass now m)) sid = Some (send_input data t s)"
    if "get_session m sid = Some (send_input data t s)" and "now - t \<le> timedelta_seconds (timeout_seconds m)"
    for sid s data t
    using kept [OF that(1)] that(2) by (simp add: send_input_last_activity)
  with gone kept shut show ?thesis by blast
qed

theorem cleanup_pass_reaps_idle_witness:
  "get_session (fst (cleanup_pass 1000000000
      (demo_manager 10 [(''s1'', demo_session ''s1'' 0 [] []),
                        (''s2'', send_input ''ls'' 900000000 (demo_session ''s2'' 0 [] []))]))) ''s1'' = None \<and>
   (demo_session ''s1'' 0 [] [])\<lparr>active := False, pexpect_handler := None,
       pty_handler := (demo_pty [])\<lparr>socket_closed := True, connected := False\<rparr>\<rparr>
     \<in> set (snd (cleanup_pass 1000000000
      (demo_manager 10 [(''s1'', demo_session ''s1'' 0 [] []),
                        (''s2'', send_input ''ls'' 900000000 (demo_session ''s2'' 0 [] []))]))) \<and>
   get_session (fst (cleanup_pass 1000000000
      (demo_manager 10 [(''s1'', demo_session ''s1'' 0 [] []),
                        (''s2'', send_input ''ls'' 900000000 (demo_session ''s2'' 0 [] []))]))) ''s2'' =
     Some (send_input ''ls'' 900000000 (demo_session ''s2'' 0 [] []))"
proof -
  let ?m = "demo_manager 10 [(''s1'', demo_session ''s1'' 0 [] []),
                        (''s2'', send_input ''ls'' 900000000 (demo_session ''s2'' 0 [] []))]"
  have d: "distinct (map fst (sessions ?m))" by (simp add: demo_manager_def)
  have a: "get_session ?m ''s1'' = Some (demo_session ''s1'' 0 [] []) \<and>
      1000000000 - last_activity (demo_session ''s1'' 0 [] []) > timedelta_seconds (timeout_seconds ?m)"
    by (simp add: get_session_def demo_manager_def demo_session_def new_session_def timedelta_seconds_def)
  have b: "get_session ?m ''s2'' = Some (send_input ''ls'' 900000000 (demo_session ''s2'' 0 [] [])) \<and>
      1000000000 - 900000000 \<le> timedelta_seconds (timeout_seconds ?m)"
    by (simp add: get_session_def demo_manager_def timedelta_seconds_def)
  from cleanup_pass_reaps_idle [OF d, of 1000000000, THEN conjunct1, rule_format, OF a]
    cleanup_pass_reaps_idle [OF d, of 1000000000, THEN conjunct2, THEN conjunct2, THEN conjunct2,
      rule_format, OF b]
  show ?thesis by (simp add: demo_session_def new_session_def)
qed

section \<open>Concurrent registry operations: properties\<close>

text \<open>
  A \<open>create_session\<close> call that runs from its check to its insertion without another
  registry operation in between keeps the registry within \<open>max_sessions\<close>; closing
  never adds an entry; every piece keeps the keys distinct.
\<close>

lemma length_update_le: "length (AList.update k v al) \<le> Suc (length al)"
  by (induction al) auto

lemma create_session_within_max:
  assumes "int (length (sessions m)) \<le> max_sessions m"
  shows "int (length (sessions (snd (create_session m cid command use_pexpect env)))) \<le> max_sessions m"
proof (cases "int (length (sessions m)) \<ge> max_sessions m")
  case True
  with assms show ?thesis by (simp add: create_session_def create_begin_def)
next
  case False
  then have "int (Suc (length (sessions m))) \<le> max_sessions m" by simp
  moreover have "length (AList.update k v (sessions m)) \<le> Suc (length (sessions m))" for k v
    by (rule length_update_le)
  ultimately have "int (length (AList.update k v (sessions m))) \<le> max_sessions m" for k v
    by (smt (verit) of_nat_mono)
  with assms show ?thesis
    by (simp add: create_session_def create_begin_def create_finish_def Let_def
        split: option.splits connect_outcome.splits)
qed

lemma close_session_length:
  "length (sessions (fst (snd (close_session m sid)))) \<le> length (sessions m)"
  by (simp add: close_session_def length_delete_le split: option.splits)

lemma close_session_distinct:
  "distinct (map fst (sessions m)) \<Longrightarrow> distinct (map fst (sessions (fst (snd (close_session m sid)))))"
  by (simp add: close_session_def distinct_delete split: option.splits)

lemma create_finish_distinct:
  "distinct (map fst (sessions m)) \<Longrightarrow>
     distinct (map fst (sessions (snd (create_finish m p outcome t1 t2))))"
  by (simp add: create_finish_def Let_def distinct_update split: connect_outcome.splits)

lemma step_distinct:
  "distinct (map fst (sessions (manager sys))) \<Longrightarrow>
     distinct (map fst (sessions (manager (step sys ev))))"
proof (cases ev)
  case (CreateCall t uuid cid use_pexpect lookup)
  assume "distinct (map fst (sessions (manager sys)))"
  with CreateCall show ?thesis by (simp split: sum.splits)
next
  case (CreateResume t outcome t1 t2)
  assume "distinct (map fst (sessions (manager sys)))"
  with CreateResume show ?thesis by (simp add: create_finish_distinct split: option.splits)
next
  case (CloseCall sid)
  assume "distinct (map fst (sessions (manager sys)))"
  with CloseCall show ?thesis by (simp add: close_session_distinct)
next
  case (CleanupPass now)
  assume "distinct (map fst (sessions (manager sys)))"
  with CleanupPass show ?thesis by (simp add: cleanup_pass_eq distinct_map_filter)
qed

lemma run_distinct:
  "distinct (map fst (sessions (manager sys))) \<Longrightarrow>
     distinct (map fst (sessions (manager (run sys evs))))"
  unfolding run_def by (induction evs arbitrary: sys) (simp_all add: step_distinct)

text \<open>
  Claim C5. A registry with \<open>max_sessions = 1\<close> and no session; two calls of
  \<open>create_session\<close> are scheduled. The first passes the capacity check and waits for
  its connection; the second passes the same check, the registry being still empty, and
  waits too; both connections are established and both calls insert their session. The
  registry then holds two sessions. After the first insertion alone it holds one.
\<close>

theorem create_race_exceeds_max:
  "max_sessions (manager (run \<lparr>manager = demo_manager 1 [], suspended = []\<rparr>
      [CreateCall 0 ''id-a'' ''c0'' False None, CreateCall 1 ''id-b'' ''c0'' False None,
       CreateResume 0 (Established []) 0 0, CreateResume 1 (Established []) 0 0])) = 1 \<and>
   map fst (sessions (manager (run \<lparr>manager = demo_manager 1 [], suspended = []\<rparr>
      [CreateCall 0 ''id-a'' ''c0'' False None, CreateCall 1 ''id-b'' ''c0'' False None,
       CreateResume 0 (Established []) 0 0, CreateResume 1 (Established []) 0 0]))) = [''id-a'', ''id-b''] \<and>
   length (sessions (manager (run \<lparr>manager = demo_manager 1 [], suspended = []\<rparr>
      [CreateCall 0 ''id-a'' ''c0'' False None, CreateCall 1 ''id-b'' ''c0'' False None,
       CreateResume 0 (Established []) 0 0]))) = 1"
  by (simp add: run_def demo_manager_def create_begin_def create_finish_def new_session_def)

section \<open>The relay loop: properties\<close>

subsection \<open>A pass in which no callback touches the subscriber list\<close>

lemma invoke_no_ops:
  assumes "ops (beh (delivered r) cb data) = []"
  shows "relay_session (invoke beh cb data r) = relay_session r"
    and "delivered (invoke beh cb data r) = delivered r @ [(cb, data)]"
  using assms by (simp_all add: invoke_def Let_def)

lemma deliver_no_ops:
  assumes quiet: "\<forall>cs cb. ops (beh cs cb data) = []"
  shows "\<exists>e. deliver beh data i r =
           Some (r\<lparr>delivered := delivered r @
                     map (\<lambda>cb. (cb, data)) (drop i (output_callbacks (relay_session r))),
                   logged_errors := e\<rparr>)"
proof (induction "length (output_callbacks (relay_session r)) - i" arbitrary: i r)
  case 0
  then have "\<not> i < length (output_callbacks (relay_session r))" by simp
  then have "deliver beh data i r = Some r" and "drop i (output_callbacks (relay_session r)) = []"
    by (simp_all add: deliver.simps)
  then have "deliver beh data i r =
           Some (r\<lparr>delivered := delivered r @
                     map (\<lambda>cb. (cb, data)) (drop i (output_callbacks (relay_session r))),
                   logged_errors := logged_errors r\<rparr>)" by simp
  then show ?case by blast
next
  case (Suc k)
  let ?cbs = "output_callbacks (relay_session r)"
  let ?r1 = "invoke beh (?cbs ! i) data r"
  from Suc.hyps(2) have lt: "i < length ?cbs" by simp
  from quiet have q: "ops (beh (delivered r) (?cbs ! i) data) = []" by simp
  note inv = invoke_no_ops [of beh r "?cbs ! i" data, OF q]
  from Suc.hyps(2) inv(1) have "k = length (output_callbacks (relay_session ?r1)) - Suc i" by simp
  from Suc.hyps(1) [OF this] obtain e where
    "deliver beh data (Suc i) ?r1 =
       Some (?r1\<lparr>delivered := delivered ?r1 @
                 map (\<lambda>cb. (cb, data)) (drop (Suc i) (output_callbacks (relay_session ?r1))),
               logged_errors := e\<rparr>)" by blast
  moreover have "deliver beh data i r = deliver beh data (Suc i) ?r1"
    using lt by (subst deliver.simps) simp
  moreover have "?r1\<lparr>delivered := delivered ?r1 @
                 map (\<lambda>cb. (cb, data)) (drop (Suc i) (output_callbacks (relay_session ?r1))),
               logged_errors := e\<rparr> =
      r\<lparr>delivered := delivered r @ map (\<lambda>cb. (cb, data)) (drop i ?cbs), logged_errors := e\<rparr>"
    using lt q by (simp add: invoke_def Let_def Cons_nth_drop_Suc [symmetric])
  ultimately show ?case by auto
qed

text \<open>
  Two behaviours that perform the same subscriber operations, and differ only in which
  invocations raise, make the same pass: the same calls, the same session afterwards,
  and one pass ends exactly when the other does.
\<close>

lemma invoke_same_ops:
  assumes "ops (b1 (delivered r) cb data) = ops (b2 (delivered r) cb data)"
    and "relay_session r = relay_session r'" and "delivered r = delivered r'"
  shows "relay_session (invoke b1 cb data r) = relay_session (invoke b2 cb data r') \<and>
         delivered (invoke b1 cb data r) = delivered (invoke b2 cb data r')"
  using assms by (simp add: invoke_def Let_def)

lemma deliver_same_ops_Some:
  assumes agree: "\<forall>cs cb d. ops (b1 cs cb d) = ops (b2 cs cb d)"
    and ret: "deliver b1 data i r = Some y"
  shows "\<forall>r'. relay_session r = relay_session r' \<and> delivered r = delivered r' \<longrightarrow>
           (\<exists>y'. deliver b2 data i r' = Some y' \<and>
              relay_session y = relay_session y' \<and> delivered y = delivered y')"
proof -
  have "(\<forall>cs cb d. ops (b1 cs cb d) = ops (b2 cs cb d)) \<longrightarrow>
        (\<forall>r'. relay_session r = relay_session r' \<and> delivered r = delivered r' \<longrightarrow>
           (\<exists>y'. deliver b2 data i r' = Some y' \<and>
              relay_session y = relay_session y' \<and> delivered y = delivered y'))"
  proof (rule deliver.raw_induct [where P = "\<lambda>b data i r y.
        (\<forall>cs cb d. ops (b cs cb d) = ops (b2 cs cb d)) \<longrightarrow>
        (\<forall>r'. relay_session r = relay_session r' \<and> delivered r = delivered r' \<longrightarrow>
           (\<exists>y'. deliver b2 data i r' = Some y' \<and>
              relay_session y = relay_session y' \<and> delivered y = delivered y'))", OF _ ret])
    fix f b data i r y
    assume IH: "\<And>b data i r y. f b data i r = Some y \<Longrightarrow>
        (\<forall>cs cb d. ops (b cs cb d) = ops (b2 cs cb d)) \<longrightarrow>
        (\<forall>r'. relay_session r = relay_session r' \<and> delivered r = delivered r' \<longrightarrow>
           (\<exists>y'. deliver b2 data i r' = Some y' \<and>
              relay_session y = relay_session y' \<and> delivered y = delivered y'))"
      and body: "(if i < length (output_callbacks (relay_session r))
         then f b data (Suc i) (invoke b (output_callbacks (relay_session r) ! i) data r)
         else Some r) = Some y"
    show "(\<forall>cs cb d. ops (b cs cb d) = ops (b2 cs cb d)) \<longrightarrow>
        (\<forall>r'. relay_session r = relay_session r' \<and> delivered r = delivered r' \<longrightarrow>
           (\<exists>y'. deliver b2 data i r' = Some y' \<and>
              relay_session y = relay_session y' \<and> delivered y = delivered y'))"
    proof (intro impI allI)
      fix r' :: relay
      assume ag: "\<forall>cs cb d. ops (b cs cb d) = ops (b2 cs cb d)"
        and same: "relay_session r = relay_session r' \<and> delivered r = delivered r'"
      show "\<exists>y'. deliver b2 data i r' = Some y' \<and>
              relay_session y = relay_session y' \<and> delivered y = delivered y'"
      proof (cases "i < length (output_callbacks (relay_session r))")
        case True
        let ?cb = "output_callbacks (relay_session r) ! i"
        from True body have "f b data (Suc i) (invoke b ?cb data r) = Some y" by simp
        from IH [OF this] ag have step:
          "\<forall>r'. relay_session (invoke b ?cb data r) = relay_session r' \<and>
                delivered (invoke b ?cb data r) = delivered r' \<longrightarrow>
           (\<exists>y'. deliver b2 data (Suc i) r' = Some y' \<and>
              relay_session y = relay_session y' \<and> delivered y = delivered y')" by blast
        from ag same have "relay_session (invoke b ?cb data r) = relay_session (invoke b2 ?cb data r') \<and>
            delivered (invoke b ?cb data r) = delivered (invoke b2 ?cb data r')"
          by (intro invoke_same_ops) simp_all
        with step obtain y' where "deliver b2 data (Suc i) (invoke b2 ?cb data r') = Some y'"
          and "relay_session y = relay_session y' \<and> delivered y = delivered y'" by blast
        moreover from True same have "deliver b2 data i r' = deliver b2 data (Suc i) (invoke b2 ?cb data r')"
          by (subst deliver.simps) simp
        ultimately show ?thesis by simp
      next
        case False
        with body have "y = r" by simp
        moreover from False same have "deliver b2 data i r' = Some r'"
          by (subst deliver.simps) simp
        ultimately show ?thesis using same by simp
      qed
    qed
  qed
  with agree show ?thesis by blast
qed

lemma deliver_same_ops:
  assumes agree: "\<forall>cs cb d. ops (b1 cs cb d) = ops (b2 cs cb d)"
    and same: "relay_session r = relay_session r'" "delivered r = delivered r'"
  shows "map_option relay_session (deliver b1 data i r) = map_option relay_session (deliver b2 data i r') \<and>
         map_option delivered (deliver b1 data i r) = map_option delivered (deliver b2 data i r')"
proof (cases "deliver b1 data i r")
  case (Some y)
  from deliver_same_ops_Some [OF agree Some] same Some show ?thesis by auto
next
  case None
  show ?thesis
  proof (cases "deliver b2 data i r'")
    case n2: None
    with None show ?thesis by simp
  next
    case (Some y')
    from agree have "\<forall>cs cb d. ops (b2 cs cb d) = ops (b1 cs cb d)" by simp
    from deliver_same_ops_Some [OF this Some, rule_format, of r] same None show ?thesis by simp
  qed
qed

subsection \<open>The loop\<close>

lemma read_output_same_ops:
  assumes agree: "\<forall>cs cb d. ops (b1 cs cb d) = ops (b2 cs cb d)"
    and "relay_session r = relay_session r'" and "delivered r = delivered r'"
  shows "map_option relay_session (read_output n b1 r) = map_option relay_session (read_output n b2 r') \<and>
         map_option delivered (read_output n b1 r) = map_option delivered (read_output n b2 r')"
  using assms(2,3)
proof (induction n arbitrary: r r')
  case 0
  then show ?case by simp
next
  case (Suc n)
  show ?case
  proof (cases "active (relay_session r)")
    case False
    with Suc.prems show ?thesis by simp
  next
    case True
    obtain data pty' where rd: "pty_read (pty_handler (relay_session r)) = (data, pty')"
      by (cases "pty_read (pty_handler (relay_session r))")
    define r1 where "r1 = r\<lparr>relay_session := (relay_session r)\<lparr>pty_handler := pty'\<rparr>\<rparr>"
    define r1' where "r1' = r'\<lparr>relay_session := (relay_session r')\<lparr>pty_handler := pty'\<rparr>\<rparr>"
    from Suc.prems have same1: "relay_session r1 = relay_session r1'" "delivered r1 = delivered r1'"
      by (simp_all add: r1_def r1'_def)
    show ?thesis
    proof (cases "data = []")
      case True
      with \<open>active (relay_session r)\<close> rd Suc.prems
      have "read_output (Suc n) b1 r = read_output n b1 r1"
        and "read_output (Suc n) b2 r' = read_output n b2 r1'"
        by (simp_all add: r1_def r1'_def Let_def)
      with Suc.IH [OF same1] show ?thesis by simp
    next
      case False
      with \<open>active (relay_session r)\<close> rd Suc.prems
      have u1: "read_output (Suc n) b1 r =
          (case deliver b1 data 0 r1 of None \<Rightarrow> None | Some r2 \<Rightarrow> read_output n b1 r2)"
        and u2: "read_output (Suc n) b2 r' =
          (case deliver b2 data 0 r1' of None \<Rightarrow> None | Some r2 \<Rightarrow> read_output n b2 r2)"
        by (simp_all add: r1_def r1'_def Let_def)
      note pass = deliver_same_ops [OF agree same1, of data 0]
      show ?thesis
      proof (cases "deliver b1 data 0 r1")
        case None
        with pass have "deliver b2 data 0 r1' = None" by simp
        with None u1 u2 show ?thesis by simp
      next
        case (Some r2)
        with pass obtain r2' where s2: "deliver b2 data 0 r1' = Some r2'"
          by (cases "deliver b2 data 0 r1'") auto
        with pass Some have "relay_session r2 = relay_session r2'" "delivered r2 = delivered r2'"
          by simp_all
        from Suc.IH [OF this] Some s2 u1 u2 show ?thesis by simp
      qed
    qed
  qed
qed

lemma read_output_no_ops:
  assumes quiet: "\<forall>cs cb d. ops (beh cs cb d) = []"
    and "active (relay_session r)"
  shows "\<exists>e. read_output n beh r =
           Some (r\<lparr>relay_session :=
                     (relay_session r)\<lparr>pty_handler := snd (read_seq n (pty_handler (relay_session r)))\<rparr>,
                   delivered := delivered r @
                     concat (map (\<lambda>d. map (\<lambda>cb. (cb, d)) (output_callbacks (relay_session r)))
                       (filter (\<lambda>d. d \<noteq> []) (fst (read_seq n (pty_handler (relay_session r)))))),
                   logged_errors := e\<rparr>)"
  using assms(2)
proof (induction n arbitrary: r)
  case 0
  have "read_output 0 beh r = Some (r\<lparr>relay_session :=
                     (relay_session r)\<lparr>pty_handler := snd (read_seq 0 (pty_handler (relay_session r)))\<rparr>,
                   delivered := delivered r @
                     concat (map (\<lambda>d. map (\<lambda>cb. (cb, d)) (output_callbacks (relay_session r)))
                       (filter (\<lambda>d. d \<noteq> []) (fst (read_seq 0 (pty_handler (relay_session r)))))),
                   logged_errors := logged_errors r\<rparr>)" by simp
  then show ?case by blast
next
  case (Suc n)
  let ?s = "relay_session r"
  obtain data pty' where rd: "pty_read (pty_handler ?s) = (data, pty')"
    by (cases "pty_read (pty_handler ?s)")
  define r1 where "r1 = r\<lparr>relay_session := ?s\<lparr>pty_handler := pty'\<rparr>\<rparr>"
  have seq: "fst (read_seq (Suc n) (pty_handler ?s)) = data # fst (read_seq n pty')"
    and seq': "snd (read_seq (Suc n) (pty_handler ?s)) = snd (read_seq n pty')"
    using read_seq_Suc [OF rd, of n] by simp_all
  from quiet have "\<forall>cs cb. ops (beh cs cb data) = []" by simp
  from deliver_no_ops [of beh data 0 r1, OF this] obtain e1 where pass:
    "deliver beh data 0 r1 =
       Some (r1\<lparr>delivered := delivered r1 @ map (\<lambda>cb. (cb, data)) (output_callbacks (relay_session r1)),
               logged_errors := e1\<rparr>)" by auto
  define r2 where "r2 = (if data \<noteq> []
      then r1\<lparr>delivered := delivered r1 @ map (\<lambda>cb. (cb, data)) (output_callbacks (relay_session r1)),
              logged_errors := e1\<rparr>
      else r1)"
  from Suc.prems rd pass have unfold: "read_output (Suc n) beh r = read_output n beh r2"
    by (simp add: r1_def r2_def Let_def)
  from Suc.prems have act: "active (relay_session r2)" by (simp add: r2_def r1_def)
  from Suc.IH [OF act] obtain e where
    "read_output n beh r2 =
       Some (r2\<lparr>relay_session :=
                 (relay_session r2)\<lparr>pty_handler := snd (read_seq n (pty_handler (relay_session r2)))\<rparr>,
               delivered := delivered r2 @
                 concat (map (\<lambda>d. map (\<lambda>cb. (cb, d)) (output_callbacks (relay_session r2)))
                   (filter (\<lambda>d. d \<noteq> []) (fst (read_seq n (pty_handler (relay_session r2)))))),
               logged_errors := e\<rparr>)" by blast
  moreover have "r2\<lparr>relay_session :=
                 (relay_session r2)\<lparr>pty_handler := snd (read_seq n (pty_handler (relay_session r2)))\<rparr>,
               delivered := delivered r2 @
                 concat (map (\<lambda>d. map (\<lambda>cb. (cb, d)) (output_callbacks (relay_session r2)))
                   (filter (\<lambda>d. d \<noteq> []) (fst (read_seq n (pty_handler (relay_session r2)))))),
               logged_errors := e\<rparr> =
      r\<lparr>relay_session :=
                 ?s\<lparr>pty_handler := snd (read_seq (Suc n) (pty_handler ?s))\<rparr>,
               delivered := delivered r @
                 concat (map (\<lambda>d. map (\<lambda>cb. (cb, d)) (output_callbacks ?s))
                   (filter (\<lambda>d. d \<noteq> []) (fst (read_seq (Suc n) (pty_handler ?s))))),
               logged_errors := e\<rparr>"
    unfolding seq seq' by (simp add: r2_def r1_def)
  ultimately have "read_output (Suc n) beh r =
      Some (r\<lparr>relay_session :=
                 ?s\<lparr>pty_handler := snd (read_seq (Suc n) (pty_handler ?s))\<rparr>,
               delivered := delivered r @
                 concat (map (\<lambda>d. map (\<lambda>cb. (cb, d)) (output_callbacks ?s))
                   (filter (\<lambda>d. d \<noteq> []) (fst (read_seq (Suc n) (pty_handler ?s))))),
               logged_errors := e\<rparr>)"
    using unfold by (simp del: read_seq.simps read_output.simps)
  then show ?case by blast
qed

subsection \<open>A pass in which callbacks subscribe others\<close>

lemma fold_adds_only:
  "adds_only os \<Longrightarrow> \<exists>extra. output_callbacks (fold apply_op os s) = output_callbacks s @ extra"
proof (induction os arbitrary: s)
  case Nil
  then show ?case by simp
next
  case (Cons op os)
  from Cons.prems obtain c where op: "op = AddCallback c" and rest: "adds_only os"
    by (cases op) simp_all
  from Cons.IH [OF rest, of "apply_op op s"] op show ?case
    by (auto simp: apply_op_def add_output_callback_def)
qed

lemma invoke_adds_only:
  assumes "adds_only (ops (beh (delivered r) cb data))"
  shows "\<exists>extra. output_callbacks (relay_session (invoke beh cb data r)) =
           output_callbacks (relay_session r) @ extra"
    and "delivered (invoke beh cb data r) = delivered r @ [(cb, data)]"
  using fold_adds_only [OF assms, of "relay_session r"] by (auto simp: invoke_def Let_def)

lemma deliver_adds_only:
  assumes adds: "\<forall>cs cb. adds_only (ops (beh cs cb data))"
    and ret: "deliver beh data i r = Some r'"
  shows "prefix (output_callbacks (relay_session r)) (output_callbacks (relay_session r')) \<and>
         delivered r' = delivered r @
           map (\<lambda>cb. (cb, data)) (drop i (output_callbacks (relay_session r')))"
proof -
  have "(\<forall>cs cb. adds_only (ops (beh cs cb data))) \<longrightarrow>
      prefix (output_callbacks (relay_session r)) (output_callbacks (relay_session r')) \<and>
      delivered r' = delivered r @
        map (\<lambda>cb. (cb, data)) (drop i (output_callbacks (relay_session r')))"
  proof (rule deliver.raw_induct [where P = "\<lambda>beh data i r r'.
      (\<forall>cs cb. adds_only (ops (beh cs cb data))) \<longrightarrow>
      prefix (output_callbacks (relay_session r)) (output_callbacks (relay_session r')) \<and>
      delivered r' = delivered r @
        map (\<lambda>cb. (cb, data)) (drop i (output_callbacks (relay_session r')))", OF _ ret])
    fix f beh data i r r'
    assume IH: "\<And>beh data i r r'. f beh data i r = Some r' \<Longrightarrow>
        (\<forall>cs cb. adds_only (ops (beh cs cb data))) \<longrightarrow>
        prefix (output_callbacks (relay_session r)) (output_callbacks (relay_session r')) \<and>
        delivered r' = delivered r @
          map (\<lambda>cb. (cb, data)) (drop i (output_callbacks (relay_session r')))"
      and body: "(if i < length (output_callbacks (relay_session r))
         then f beh data (Suc i) (invoke beh (output_callbacks (relay_session r) ! i) data r)
         else Some r) = Some r'"
    show "(\<forall>cs cb. adds_only (ops (beh cs cb data))) \<longrightarrow>
        prefix (output_callbacks (relay_session r)) (output_callbacks (relay_session r')) \<and>
        delivered r' = delivered r @
          map (\<lambda>cb. (cb, data)) (drop i (output_callbacks (relay_session r')))"
    proof
      assume adds: "\<forall>cs cb. adds_only (ops (beh cs cb data))"
      let ?cbs = "output_callbacks (relay_session r)"
      let ?cbs' = "output_callbacks (relay_session r')"
      show "prefix ?cbs ?cbs' \<and> delivered r' = delivered r @ map (\<lambda>cb. (cb, data)) (drop i ?cbs')"
      proof (cases "i < length ?cbs")
        case False
        with body have "r' = r" by simp
        with False show ?thesis by simp
      next
        case True
        let ?r1 = "invoke beh (?cbs ! i) data r"
        from adds have a: "adds_only (ops (beh (delivered r) (?cbs ! i) data))" by simp
        from invoke_adds_only [of beh r "?cbs ! i" data, OF a] obtain extra where
          grow: "output_callbacks (relay_session ?r1) = ?cbs @ extra"
          and log: "delivered ?r1 = delivered r @ [(?cbs ! i, data)]" by blast
        from True body have "f beh data (Suc i) ?r1 = Some r'" by simp
        from IH [OF this] adds have
          pre: "prefix (output_callbacks (relay_session ?r1)) ?cbs'"
          and del: "delivered r' = delivered ?r1 @ map (\<lambda>cb. (cb, data)) (drop (Suc i) ?cbs')"
          by simp_all
        from pre grow obtain rest where cbs': "?cbs' = ?cbs @ rest"
          by (auto simp: prefix_def)
        with True have "i < length ?cbs'" and "?cbs' ! i = ?cbs ! i"
          by (simp_all add: nth_append)
        then have "drop i ?cbs' = ?cbs ! i # drop (Suc i) ?cbs'"
          by (metis Cons_nth_drop_Suc)
        with del log cbs' show ?thesis by simp
      qed
    qed
  qed
  with adds show ?thesis by blast
qed

subsection \<open>A pass in which callbacks unsubscribe\<close>

lemma fold_removes_only:
  "removes_only os \<Longrightarrow>
     length (output_callbacks (fold apply_op os s)) \<le> length (output_callbacks s)"
proof (induction os arbitrary: s)
  case Nil
  then show ?case by simp
next
  case (Cons op os)
  from Cons.prems obtain c where op: "op = RemoveCallback c" and rest: "removes_only os"
    by (cases op) simp_all
  have "length (output_callbacks (apply_op op s)) \<le> length (output_callbacks s)"
    by (simp add: op apply_op_def remove_output_callback_def length_remove1)
  with Cons.IH [OF rest, of "apply_op op s"] show ?case by simp
qed

lemma deliver_removes_only:
  assumes rem: "\<forall>cs cb. removes_only (ops (beh cs cb data))"
  shows "\<exists>r'. deliver beh data i r = Some r'"
proof (induction "length (output_callbacks (relay_session r)) - i" arbitrary: i r rule: less_induct)
  case less
  let ?cbs = "output_callbacks (relay_session r)"
  show ?case
  proof (cases "i < length ?cbs")
    case False
    then have "deliver beh data i r = Some r" by (subst deliver.simps) simp
    then show ?thesis by blast
  next
    case True
    let ?r1 = "invoke beh (?cbs ! i) data r"
    from rem have "removes_only (ops (beh (delivered r) (?cbs ! i) data))" by simp
    from fold_removes_only [OF this, of "relay_session r"]
    have "length (output_callbacks (relay_session ?r1)) \<le> length ?cbs"
      by (simp add: invoke_def Let_def)
    with True have "length (output_callbacks (relay_session ?r1)) - Suc i < length ?cbs - i"
      by simp
    from less.hyps [OF this] obtain r' where "deliver beh data (Suc i) ?r1 = Some r'" by blast
    moreover have "deliver beh data i r = deliver beh data (Suc i) ?r1"
      using True by (subst deliver.simps) simp
    ultimately show ?thesis by simp
  qed
qed

subsection \<open>Claims about the relay\<close>

lemma chunks_of_second:
  "c1 \<noteq> c2 \<Longrightarrow>
     map snd (filter (\<lambda>p. fst p = c2) (concat (map (\<lambda>d. map (\<lambda>cb. (cb, d)) [c1, c2]) ds))) = ds"
  by (induction ds) auto

text \<open>
  Claim C8. Whether invocations raise makes no difference to a run of the relay loop:
  two behaviours with the same subscriber operations give the same calls and the same
  session, whichever of their invocations raise. When no callback changes the
  subscriber list, then however many invocations raise, every round of the loop ends,
  the session stays active (the loop goes on), the subscriber list is as it was, and
  every chunk read has gone to every subscriber, chunk by chunk in the order read and
  within a chunk in list order. With two subscribers, the second has received exactly
  the chunks the channel delivered, in that order, also when the first raises on every
  delivery.
\<close>

theorem relay_isolates_raising_subscriber:
  "((\<forall>cs cb d. ops (b1 cs cb d) = ops (b2 cs cb d)) \<longrightarrow>
      map_option relay_session (read_output n b1 r) = map_option relay_session (read_output n b2 r) \<and>
      map_option delivered (read_output n b1 r) = map_option delivered (read_output n b2 r)) \<and>
   ((\<forall>cs cb d. ops (beh cs cb d) = []) \<and> active (relay_session r) \<longrightarrow>
      (\<exists>r'. read_output n beh r = Some r' \<and> active (relay_session r') \<and>
         output_callbacks (relay_session r') = output_callbacks (relay_session r) \<and>
         delivered r' = delivered r @
           concat (map (\<lambda>d. map (\<lambda>cb. (cb, d)) (output_callbacks (relay_session r)))
             (filter (\<lambda>d. d \<noteq> []) (fst (read_seq n (pty_handler (relay_session r)))))))) \<and>
   ((\<forall>cs cb d. ops (beh cs cb d) = []) \<and> active (relay_session r) \<and>
    output_callbacks (relay_session r) = [c1, c2] \<and> c1 \<noteq> c2 \<and> delivered r = [] \<longrightarrow>
      (\<exists>r'. read_output n beh r = Some r' \<and>
         map snd (filter (\<lambda>p. fst p = c2) (delivered r')) =
           filter (\<lambda>d. d \<noteq> []) (fst (read_seq n (pty_handler (relay_session r))))))"
proof (intro conjI impI)
  assume "\<forall>cs cb d. ops (b1 cs cb d) = ops (b2 cs cb d)"
  from read_output_same_ops [OF this refl refl]
  show "map_option relay_session (read_output n b1 r) = map_option relay_session (read_output n b2 r)"
    and "map_option delivered (read_output n b1 r) = map_option delivered (read_output n b2 r)"
    by simp_all
next
  assume "(\<forall>cs cb d. ops (beh cs cb d) = []) \<and> active (relay_session r)"
  then have q: "\<forall>cs cb d. ops (beh cs cb d) = []" and a: "active (relay_session r)" by simp_all
  from read_output_no_ops [OF q a, of n] obtain e where
    "read_output n beh r =
       Some (r\<lparr>relay_session :=
                 (relay_session r)\<lparr>pty_handler := snd (read_seq n (pty_handler (relay_session r)))\<rparr>,
               delivered := delivered r @
                 concat (map (\<lambda>d. map (\<lambda>cb. (cb, d)) (output_callbacks (relay_session r)))
                   (filter (\<lambda>d. d \<noteq> []) (fst (read_seq n (pty_handler (relay_session r)))))),
               logged_errors := e\<rparr>)" by blast
  with a show "\<exists>r'. read_output n beh r = Some r' \<and> active (relay_session r') \<and>
         output_callbacks (relay_session r') = output_callbacks (relay_session r) \<and>
         delivered r' = delivered r @
           concat (map (\<lambda>d. map (\<lambda>cb. (cb, d)) (output_callbacks (relay_session r)))
             (filter (\<lambda>d. d \<noteq> []) (fst (read_seq n (pty_handler (relay_session r))))))"
    by simp
next
  assume h: "(\<forall>cs cb d. ops (beh cs cb d) = []) \<and> active (relay_session r) \<and>
    output_callbacks (relay_session r) = [c1, c2] \<and> c1 \<noteq> c2 \<and> delivered r = []"
  then have q: "\<forall>cs cb d. ops (beh cs cb d) = []" and a: "active (relay_session r)" by simp_all
  from read_output_no_ops [OF q a, of n] obtain e where
    "read_output n beh r =
       Some (r\<lparr>relay_session :=
                 (relay_session r)\<lparr>pty_handler := snd (read_seq n (pty_handler (relay_session r)))\<rparr>,
               delivered := delivered r @
                 concat (map (\<lambda>d. map (\<lambda>cb. (cb, d)) (output_callbacks (relay_session r)))
                   (filter (\<lambda>d. d \<noteq> []) (fst (read_seq n (pty_handler (relay_session r)))))),
               logged_errors := e\<rparr>)" by blast
  with h chunks_of_second [of c1 c2]
  show "\<exists>r'. read_output n beh r = Some r' \<and>
         map snd (filter (\<lambda>p. fst p = c2) (delivered r')) =
           filter (\<lambda>d. d \<noteq> []) (fst (read_seq n (pty_handler (relay_session r))))"
    by simp
qed

theorem relay_isolates_raising_subscriber_witness:
  "(\<exists>r'. read_output 3 raising_first (demo_relay [1, 2] [''a'', [], ''b'']) = Some r' \<and>
      map snd (filter (\<lambda>p. fst p = 2) (delivered r')) = [''a'', ''b'']) \<and>
   map_option logged_errors (read_output 3 raising_first (demo_relay [1, 2] [''a'', [], ''b''])) = Some 2"
proof -
  let ?r = "demo_relay [1, 2] [''a'', [], ''b'']"
  have h: "(\<forall>cs cb d. ops (raising_first cs cb d) = []) \<and> active (relay_session ?r) \<and>
    output_callbacks (relay_session ?r) = [1, 2] \<and> (1::nat) \<noteq> 2 \<and> delivered ?r = []"
    by (simp add: raising_first_def demo_relay_def demo_session_def new_session_def)
  have rs: "fst (read_seq 3 (pty_handler (relay_session ?r))) = [''a'', [], ''b'']"
    by (simp add: numeral_3_eq_3 pty_read_def demo_relay_def demo_session_def new_session_def demo_pty_def)
  have errs: "map_option logged_errors (read_output 3 raising_first ?r) = Some 2"
    by (simp add: numeral_3_eq_3 deliver.simps invoke_def raising_first_def pty_read_def
        demo_relay_def demo_session_def new_session_def demo_pty_def)
  from relay_isolates_raising_subscriber [THEN conjunct2, THEN conjunct2, rule_format, OF h, of 3]
    rs errs
  show ?thesis by simp
qed

text \<open>
  Claim C9, as stated, fails: the pass walks the subscriber list itself, not a copy.
  With subscribers 1 and 2, when callback 1 unsubscribes itself the pass ends without
  calling 2, which was subscribed when the pass began; when callback 1 subscribes
  callback 3, that pass delivers the chunk to 3 as well.
\<close>

theorem delivery_pass_walks_live_list:
  "map_option delivered (deliver unsubscribing_first ''x'' 0 (demo_relay [1, 2] [])) = Some [(1, ''x'')] \<and>
   map_option delivered (deliver subscribing_first ''x'' 0 (demo_relay [1, 2] [])) =
     Some [(1, ''x''), (2, ''x''), (3, ''x'')]"
  by (simp add: deliver.simps invoke_def unsubscribing_first_def subscribing_first_def
      apply_op_def add_output_callback_def remove_output_callback_def
      demo_relay_def demo_session_def new_session_def)

text \<open>
  Claim C9, amended. A delivery pass walks the live subscriber list by position. If no
  callback adds or removes a subscriber during the pass, the pass ends and has called
  every subscriber of the list once, in list order, with the chunk. If the callbacks only
  add subscribers and the pass ends, the list it started with is a prefix of the final
  list and the pass has called every subscriber of the final list once, in list order:
  none that was subscribed at the start is skipped, and those added during the pass
  receive the chunk in that pass. If the callbacks only remove subscribers, the pass
  ends: walking the list while it shrinks raises nothing.
\<close>

theorem delivery_pass_without_removal:
  "((\<forall>cs cb. ops (beh cs cb data) = []) \<longrightarrow>
      (\<exists>e. deliver beh data 0 r =
         Some (r\<lparr>delivered := delivered r @
                   map (\<lambda>cb. (cb, data)) (output_callbacks (relay_session r)),
                 logged_errors := e\<rparr>))) \<and>
   ((\<forall>cs cb. adds_only (ops (beh cs cb data))) \<and> deliver beh data 0 r = Some r' \<longrightarrow>
      prefix (output_callbacks (relay_session r)) (output_callbacks (relay_session r')) \<and>
      delivered r' = delivered r @ map (\<lambda>cb. (cb, data)) (output_callbacks (relay_session r'))) \<and>
   ((\<forall>cs cb. removes_only (ops (beh cs cb data))) \<longrightarrow> (\<exists>r''. deliver beh data 0 r = Some r''))"
proof (intro conjI impI)
  assume "\<forall>cs cb. ops (beh cs cb data) = []"
  from deliver_no_ops [of beh data 0 r, OF this]
  show "\<exists>e. deliver beh data 0 r =
         Some (r\<lparr>delivered := delivered r @
                   map (\<lambda>cb. (cb, data)) (output_callbacks (relay_session r)),
                 logged_errors := e\<rparr>)" by simp
next
  assume h: "(\<forall>cs cb. adds_only (ops (beh cs cb data))) \<and> deliver beh data 0 r = Some r'"
  then have a: "\<forall>cs cb. adds_only (ops (beh cs cb data))" and ret: "deliver beh data 0 r = Some r'"
    by simp_all
  from deliver_adds_only [of beh data 0 r r', OF a ret]
  show "prefix (output_callbacks (relay_session r)) (output_callbacks (relay_session r'))"
    and "delivered r' = delivered r @ map (\<lambda>cb. (cb, data)) (output_callbacks (relay_session r'))"
    by simp_all
next
  assume "\<forall>cs cb. removes_only (ops (beh cs cb data))"
  then show "\<exists>r''. deliver beh data 0 r = Some r''"
    by (rule deliver_removes_only)
qed

theorem delivery_pass_without_removal_witness:
  "(\<exists>e. deliver raising_first ''x'' 0 (demo_relay [1, 2] []) =
      Some ((demo_relay [1, 2] [])\<lparr>delivered := [(1, ''x''), (2, ''x'')], logged_errors := e\<rparr>)) \<and>
   map_option (\<lambda>r. output_callbacks (relay_session r))
     (deliver subscribing_first ''x'' 0 (demo_relay [1, 2] [])) = Some [1, 2, 3] \<and>
   map_option delivered (deliver subscribing_first ''x'' 0 (demo_relay [1, 2] [])) =
     Some (map (\<lambda>cb. (cb, ''x'')) [1, 2, 3])"
proof -
  let ?r = "demo_relay [1, 2] []"
  have q: "\<forall>cs cb. ops (raising_first cs cb ''x'') = []" by (simp add: raising_first_def)
  obtain r' where ret: "deliver subscribing_first ''x'' 0 ?r = Some r'"
    and cbs: "output_callbacks (relay_session r') = [1, 2, 3]"
    by (simp add: deliver.simps invoke_def subscribing_first_def
      apply_op_def add_output_callback_def demo_relay_def demo_session_def new_session_def)
  have a: "(\<forall>cs cb. adds_only (ops (subscribing_first cs cb ''x''))) \<and>
      deliver subscribing_first ''x'' 0 ?r = Some r'"
    using ret by (simp add: subscribing_first_def)
  from delivery_pass_without_removal
      [where beh = raising_first and data = "''x''" and r = ?r, THEN conjunct1, THEN mp, OF q]
    delivery_pass_without_removal
      [where beh = subscribing_first and data = "''x''" and r = ?r and r' = r',
        THEN conjunct2, THEN conjunct1, rule_format, OF a] ret cbs
  show ?thesis by (simp add: demo_relay_def demo_session_def new_session_def)
qed

end
